theory Spec2Isabelle
  imports Main
begin

section \<open>The source buffer and the character tests\<close>

text \<open>
  The tokenizer module (\<^verbatim>\<open>src/tokens.ts\<close> in the README) is the second part of
  \<^verbatim>\<open>src/autocomplete.ts\<close> as the sources come, from line 251 on; line numbers below are
  those of that file.

  The tokenizers read the document through the input stream of the parser library
  (\<^verbatim>\<open>@lezer/lr\<close>, a dependency): \<^verbatim>\<open>input.peek(k)\<close> is the UTF-16 code unit \<open>k\<close> places
  after the current position and \<open>-1\<close> past the end of the document. A buffer is the list
  of code units from the position where a tokenizer is invoked to the end of the document;
  a token's end is counted from that position, so it is also the number of code units
  consumed. No tokenizer looks before that position.
\<close>

type_synonym buffer = "nat list"

definition peek :: "buffer \<Rightarrow> nat \<Rightarrow> int" where
  "peek s k = (if k < length s then int (s ! k) else - 1)"

abbreviation NEWLINE :: int where "NEWLINE \<equiv> 10"
abbreviation CR :: int where "CR \<equiv> 13"
abbreviation SPACE :: int where "SPACE \<equiv> 32"
abbreviation TAB :: int where "TAB \<equiv> 9"
abbreviation QUOTE :: int where "QUOTE \<equiv> 34"
abbreviation BACKTICK :: int where "BACKTICK \<equiv> 96"
abbreviation BACKSLASH :: int where "BACKSLASH \<equiv> 92"
abbreviation DASH :: int where "DASH \<equiv> 45"
abbreviation UNDERSCORE :: int where "UNDERSCORE \<equiv> 95"
abbreviation PLUS :: int where "PLUS \<equiv> 43"
abbreviation DOT :: int where "DOT \<equiv> 46"
abbreviation LOWER_A :: int where "LOWER_A \<equiv> 97"
abbreviation LOWER_Z :: int where "LOWER_Z \<equiv> 122"
abbreviation UPPER_A :: int where "UPPER_A \<equiv> 65"
abbreviation UPPER_Z :: int where "UPPER_Z \<equiv> 90"
abbreviation DIGIT_0 :: int where "DIGIT_0 \<equiv> 48"
abbreviation DIGIT_1 :: int where "DIGIT_1 \<equiv> 49"
abbreviation DIGIT_7 :: int where "DIGIT_7 \<equiv> 55"
abbreviation DIGIT_9 :: int where "DIGIT_9 \<equiv> 57"
abbreviation LOWER_E :: int where "LOWER_E \<equiv> 101"
abbreviation UPPER_E :: int where "UPPER_E \<equiv> 69"
abbreviation LOWER_X :: int where "LOWER_X \<equiv> 120"
abbreviation UPPER_X :: int where "UPPER_X \<equiv> 88"
abbreviation LOWER_B :: int where "LOWER_B \<equiv> 98"
abbreviation UPPER_B :: int where "UPPER_B \<equiv> 66"
abbreviation LOWER_O :: int where "LOWER_O \<equiv> 111"
abbreviation UPPER_O :: int where "UPPER_O \<equiv> 79"
abbreviation LOWER_U :: int where "LOWER_U \<equiv> 117"

definition isDigit :: "int \<Rightarrow> bool" where
  "isDigit c \<longleftrightarrow> c \<ge> DIGIT_0 \<and> c \<le> DIGIT_9"

definition isHex :: "int \<Rightarrow> bool" where
  "isHex c \<longleftrightarrow> isDigit c \<or> (c \<ge> LOWER_A \<and> c \<le> 102) \<or> (c \<ge> UPPER_A \<and> c \<le> 70)"

text \<open>The document as text, for examples: one code unit per character.\<close>

definition codes :: "string \<Rightarrow> buffer" where
  "codes cs = map of_char cs"

section \<open>Tokens and the context tracker (trackIndent)\<close>

text \<open>
  Modelled from the spec: the term identifiers, which \<^verbatim>\<open>tokens.ts\<close> imports from the generated
  file \<^verbatim>\<open>huml-parser.terms\<close> (not among the sources). The spec lists nine token kinds; the
  tokenizers and the tracker only compare identifiers, so the kinds are the constructors of
  a datatype, pairwise different as the generated numbers are. \<open>StringToken\<close> and
  \<open>NumberToken\<close> are the names under which \<^verbatim>\<open>tokens.ts\<close> imports String and Number;
  \<open>OtherTerm\<close> stands for every term of the grammar that no external tokenizer produces,
  since the tracker is called with those too.
\<close>

datatype token =
  Indent | Dedent | Newline | Key | ListMark | StringToken | BlockString | FoldedString
  | NumberToken | OtherTerm nat

definition trackIndent_start :: int where
  "trackIndent_start = 0"

definition trackIndent_shift :: "int \<Rightarrow> token \<Rightarrow> int" where
  "trackIndent_shift ctx trm =
     (if trm = Indent then ctx + 2 else if trm = Dedent then ctx - 2 else ctx)"

section \<open>The indentation tokenizer\<close>

text \<open>
  The loop that counts the blanks after the line terminator; it returns the two
  variables \<open>spaces\<close> and \<open>pos\<close> at the \<^verbatim>\<open>break\<close>.
\<close>

function count_spaces :: "buffer \<Rightarrow> nat \<Rightarrow> nat \<Rightarrow> nat \<times> nat" where
  "count_spaces s spaces pos =
     (if peek s pos = SPACE \<or> peek s pos = TAB
      then count_spaces s (spaces + 1) (pos + 1)
      else (spaces, pos))"
  by pat_completeness auto
termination
  by (relation "measure (\<lambda>(s, spaces, pos). length s - pos)")
     (auto simp: peek_def split: if_splits)

declare count_spaces.simps [simp del]

text \<open>
  A result \<open>Some (t, n)\<close> is \<^verbatim>\<open>input.acceptToken(t, n)\<close>: token \<open>t\<close> ending \<open>n\<close> code
  units after the position of the call; \<open>None\<close> is a return without a token.
\<close>

definition indentation :: "int \<Rightarrow> buffer \<Rightarrow> (token \<times> nat) option" where
  "indentation ctx s =
     (let c = peek s 0 in
      if c = - 1 then (if ctx > 0 then Some (Dedent, 0) else None)
      else if c \<noteq> NEWLINE \<and> c \<noteq> CR then None
      else
        (let (spaces, pos) = count_spaces s 0 1;
             nxt = peek s pos
         in if nxt = NEWLINE \<or> nxt = CR \<or> nxt = - 1 then Some (Newline, 1)
            else if int spaces > ctx then Some (Indent, pos)
            else if int spaces < ctx then Some (Dedent, 0)
            else Some (Newline, pos)))"

text \<open>
  The parser calls the tracker's \<open>shift\<close> with every token it consumes. A run of the
  parser is, for the context, a list of events: the indentation tokenizer is asked at
  some text, or a token from elsewhere is consumed.
\<close>

datatype event = Ask buffer | Consume token

fun track :: "int \<Rightarrow> event list \<Rightarrow> int" where
  "track ctx [] = ctx"
| "track ctx (Ask s # es) =
     (case indentation ctx s of
        None \<Rightarrow> track ctx es
      | Some (t, n) \<Rightarrow> track (trackIndent_shift ctx t) es)"
| "track ctx (Consume t # es) = track (trackIndent_shift ctx t) es"

section \<open>The multiline string tokenizer\<close>

text \<open>
  \<^verbatim>\<open>input.advance(n)\<close> moves the position \<open>n\<close> code units on and stops at the end of the
  document. A call of \<^verbatim>\<open>acceptToken\<close> without an offset ends the token at the position
  reached.
\<close>

definition advance :: "buffer \<Rightarrow> nat \<Rightarrow> nat \<Rightarrow> nat" where
  "advance s pos n = min (pos + n) (length s)"

abbreviation MAX_LENGTH :: int where "MAX_LENGTH \<equiv> 1000000"

function check_indent :: "buffer \<Rightarrow> nat \<Rightarrow> nat \<Rightarrow> int \<Rightarrow> nat \<times> nat \<times> int" where
  "check_indent s currentIndent pos len =
     (if peek s pos = SPACE \<or> peek s pos = TAB
      then check_indent s (currentIndent + 1) (advance s pos 1) (len + 1)
      else (currentIndent, pos, len))"
  by pat_completeness auto
termination
  by (relation "measure (\<lambda>(s, currentIndent, pos, len). length s - pos)")
     (auto simp: peek_def advance_def split: if_splits)

declare check_indent.simps [simp del]

lemma check_indent_len:
  "check_indent s i pos len = (i', pos', len') \<Longrightarrow> len \<le> len'"
proof (induction s i pos len rule: check_indent.induct)
  case (1 s currentIndent pos len)
  then show ?case
    by (subst (asm) (2) check_indent.simps) (auto split: if_splits)
qed

function ml_loop :: "int \<Rightarrow> int \<Rightarrow> buffer \<Rightarrow> nat \<Rightarrow> int \<Rightarrow> nat option" where
  "ml_loop ctx start s pos len =
     (if len < MAX_LENGTH then
        (let nxt = peek s pos in
         if nxt = - 1 then None
         else if nxt = NEWLINE \<or> nxt = CR then
           (case check_indent s 0 (advance s pos 1) (len + 1) of
              (currentIndent, pos', len') \<Rightarrow>
                if peek s pos' = start \<and> peek s (pos' + 1) = start \<and> peek s (pos' + 2) = start
                then (if int currentIndent \<noteq> ctx then None else Some (advance s pos' 3))
                else ml_loop ctx start s pos' len')
         else if nxt = BACKSLASH then ml_loop ctx start s (advance s pos 2) (len + 2)
         else ml_loop ctx start s (advance s pos 1) (len + 1))
      else Some pos)"
  by pat_completeness auto
termination ml_loop
  by (relation "measure (\<lambda>(ctx, start, s, pos, len). nat (MAX_LENGTH - len))")
     (auto dest!: check_indent_len [OF sym])

declare ml_loop.simps [simp del]

definition multilineStrings :: "int \<Rightarrow> buffer \<Rightarrow> (token \<times> nat) option" where
  "multilineStrings ctx s =
     (let start = peek s 0 in
      if start \<noteq> QUOTE \<and> start \<noteq> BACKTICK then None
      else if peek s 1 \<noteq> start \<or> peek s 2 \<noteq> start then None
      else
        (let ty = (if start = QUOTE then BlockString else FoldedString);
             pos = advance s 0 3;
             afterDelim = peek s pos
         in if afterDelim \<noteq> NEWLINE \<and> afterDelim \<noteq> CR \<and> afterDelim \<noteq> - 1 then None
            else map_option (\<lambda>e. (ty, e)) (ml_loop ctx start s pos 0)))"

section \<open>The string tokenizer\<close>

text \<open>
  The loop of \<open>stringToken\<close>, entered with \<open>pos = 1\<close>; the position never falls below 1,
  so \<open>pos - 1\<close> is a place of the token. \<open>simple_escapes\<close> is the array literal of the
  test for a simple escape.
\<close>

definition simple_escapes :: "int list" where
  "simple_escapes = [QUOTE, BACKSLASH, 47, 98, 102, 110, 114, 116]"

function string_loop :: "buffer \<Rightarrow> nat \<Rightarrow> nat option" where
  "string_loop s pos =
     (let nxt = peek s pos in
      if nxt = - 1 then None
      else if nxt = NEWLINE \<or> nxt = CR then None
      else if nxt = QUOTE \<and> peek s (pos - 1) \<noteq> BACKSLASH then Some (pos + 1)
      else if nxt = BACKSLASH then
        (let esc = peek s (pos + 1) in
         if esc = - 1 then None
         else if esc = LOWER_U then
           (if list_all (\<lambda>i. isHex (peek s (pos + 2 + i))) [0, 1, 2, 3]
            then string_loop s (pos + 6) else None)
         else if esc \<in> set simple_escapes
         then string_loop s (pos + 2)
         else None)
      else string_loop s (pos + 1))"
  by pat_completeness auto
termination
  by (relation "measure (\<lambda>(s, pos). length s - pos)")
     (auto simp: peek_def split: if_splits)

declare string_loop.simps [simp del]

definition stringToken :: "buffer \<Rightarrow> (token \<times> nat) option" where
  "stringToken s =
     (if peek s 0 \<noteq> QUOTE then None
      else map_option (\<lambda>e. (StringToken, e)) (string_loop s 1))"

section \<open>The number tokenizer\<close>

text \<open>\<^verbatim>\<open>while (isHex(input.peek(pos)) || input.peek(pos) === UNDERSCORE) pos++\<close>\<close>

function hex_run :: "buffer \<Rightarrow> nat \<Rightarrow> nat" where
  "hex_run s pos =
     (if isHex (peek s pos) \<or> peek s pos = UNDERSCORE then hex_run s (pos + 1) else pos)"
  by pat_completeness auto
termination
  by (relation "measure (\<lambda>(s, pos). length s - pos)")
     (auto simp: peek_def isHex_def isDigit_def split: if_splits)

declare hex_run.simps [simp del]

text \<open>
  The octal and the binary loop: \<open>None\<close> is the \<^verbatim>\<open>return\<close> at an invalid digit, \<open>Some\<close>
  carries \<open>pos\<close> and \<open>valid\<close> at the \<^verbatim>\<open>break\<close>.
\<close>

function octal_loop :: "buffer \<Rightarrow> nat \<Rightarrow> bool \<Rightarrow> (nat \<times> bool) option" where
  "octal_loop s pos valid =
     (let d = peek s pos in
      if d \<ge> DIGIT_0 \<and> d \<le> DIGIT_7 then octal_loop s (pos + 1) True
      else if d = UNDERSCORE then octal_loop s (pos + 1) valid
      else if isDigit d then None
      else Some (pos, valid))"
  by pat_completeness auto
termination
  by (relation "measure (\<lambda>(s, pos, valid). length s - pos)")
     (auto simp: peek_def split: if_splits)

declare octal_loop.simps [simp del]

function binary_loop :: "buffer \<Rightarrow> nat \<Rightarrow> bool \<Rightarrow> (nat \<times> bool) option" where
  "binary_loop s pos valid =
     (let d = peek s pos in
      if d = DIGIT_0 \<or> d = DIGIT_1 then binary_loop s (pos + 1) True
      else if d = UNDERSCORE then binary_loop s (pos + 1) valid
      else if isDigit d then None
      else Some (pos, valid))"
  by pat_completeness auto
termination
  by (relation "measure (\<lambda>(s, pos, valid). length s - pos)")
     (auto simp: peek_def split: if_splits)

declare binary_loop.simps [simp del]

text \<open>The first decimal loop, which also sets \<open>hasDigit\<close>.\<close>

function integer_run :: "buffer \<Rightarrow> nat \<Rightarrow> bool \<Rightarrow> nat \<times> bool" where
  "integer_run s pos hasDigit =
     (if isDigit (peek s pos) \<or> peek s pos = UNDERSCORE
      then integer_run s (pos + 1) (if isDigit (peek s pos) then True else hasDigit)
      else (pos, hasDigit))"
  by pat_completeness auto
termination
  by (relation "measure (\<lambda>(s, pos, hasDigit). length s - pos)")
     (auto simp: peek_def isDigit_def split: if_splits)

declare integer_run.simps [simp del]

text \<open>\<^verbatim>\<open>while (isDigit(input.peek(pos)) || input.peek(pos) === UNDERSCORE) pos++\<close>\<close>

function digit_run :: "buffer \<Rightarrow> nat \<Rightarrow> nat" where
  "digit_run s pos =
     (if isDigit (peek s pos) \<or> peek s pos = UNDERSCORE then digit_run s (pos + 1) else pos)"
  by pat_completeness auto
termination
  by (relation "measure (\<lambda>(s, pos). length s - pos)")
     (auto simp: peek_def isDigit_def split: if_splits)

declare digit_run.simps [simp del]

text \<open>The decimal part of \<open>numberToken\<close>, from the position after the sign.\<close>

definition decimal :: "buffer \<Rightarrow> nat \<Rightarrow> (token \<times> nat) option" where
  "decimal s pos0 =
     (case integer_run s pos0 False of
        (pos1, hasDigit1) \<Rightarrow>
          (case (if peek s pos1 = DOT
                 then (if isDigit (peek s (pos1 + 1))
                       then (digit_run s (pos1 + 1), True)
                       else (pos1 + 1, hasDigit1))
                 else (pos1, hasDigit1)) of
             (pos2, hasDigit) \<Rightarrow>
               (let e = peek s pos2 in
                if e = LOWER_E \<or> e = UPPER_E then
                  (if \<not> hasDigit then None
                   else
                     (let pos3 = pos2 + 1;
                          sign = peek s pos3;
                          pos4 = (if sign = PLUS \<or> sign = DASH then pos3 + 1 else pos3)
                      in if \<not> isDigit (peek s pos4) then None
                         else (if hasDigit then Some (NumberToken, digit_run s pos4) else None)))
                else (if hasDigit then Some (NumberToken, pos2) else None))))"

definition numberToken :: "buffer \<Rightarrow> (token \<times> nat) option" where
  "numberToken s =
     (let pos = (if peek s 0 = PLUS \<or> peek s 0 = DASH then 1 else 0);
          c = peek s pos
      in if \<not> isDigit c then None
         else
           (let nxt = peek s (pos + 1) in
            if c = DIGIT_0 \<and> (nxt = LOWER_X \<or> nxt = UPPER_X) then
              (if \<not> isHex (peek s (pos + 2)) then None
               else Some (NumberToken, hex_run s (pos + 2)))
            else if c = DIGIT_0 \<and> (nxt = LOWER_O \<or> nxt = UPPER_O) then
              (case octal_loop s (pos + 2) False of
                 None \<Rightarrow> None
               | Some (p, valid) \<Rightarrow> if valid then Some (NumberToken, p) else None)
            else if c = DIGIT_0 \<and> (nxt = LOWER_B \<or> nxt = UPPER_B) then
              (case binary_loop s (pos + 2) False of
                 None \<Rightarrow> None
               | Some (p, valid) \<Rightarrow> if valid then Some (NumberToken, p) else None)
            else decimal s pos))"


section \<open>Vocabulary for the statements\<close>

text \<open>
  Shapes of text that the statements speak about: a blank is a space or a tab; a body
  character is plain when it is no line terminator and no backslash; a fence stands at a
  position when the three code units there are the fence character; the token kind of a
  fence character is the one \<open>multilineStrings\<close> chooses.
\<close>

definition blank :: "nat \<Rightarrow> bool" where
  "blank c \<longleftrightarrow> c = 32 \<or> c = 9"

definition plain :: "nat \<Rightarrow> bool" where
  "plain c \<longleftrightarrow> c \<noteq> 10 \<and> c \<noteq> 13 \<and> c \<noteq> 92"

definition fence_at :: "buffer \<Rightarrow> nat \<Rightarrow> int \<Rightarrow> bool" where
  "fence_at s pos start \<longleftrightarrow>
     peek s pos = start \<and> peek s (pos + 1) = start \<and> peek s (pos + 2) = start"

definition fence_kind :: "nat \<Rightarrow> token" where
  "fence_kind f = (if int f = QUOTE then BlockString else FoldedString)"

definition slice :: "buffer \<Rightarrow> nat \<Rightarrow> nat \<Rightarrow> buffer" where
  "slice s a b = take (b - a) (drop a s)"

definition digits_text :: "buffer \<Rightarrow> bool" where
  "digits_text ds \<longleftrightarrow>
     ds \<noteq> [] \<and> isDigit (int (hd ds)) \<and> list_all (\<lambda>c. isDigit (int c) \<or> int c = UNDERSCORE) ds"

definition sign_text :: "buffer \<Rightarrow> bool" where
  "sign_text sg \<longleftrightarrow> sg = [] \<or> sg = [43] \<or> sg = [45]"

definition fraction_text :: "buffer \<Rightarrow> bool" where
  "fraction_text fr \<longleftrightarrow> fr = [] \<or> fr = [46] \<or> (\<exists>fd. fr = 46 # fd \<and> digits_text fd)"

definition exponent_text :: "buffer \<Rightarrow> bool" where
  "exponent_text ex \<longleftrightarrow>
     ex = [] \<or> (\<exists>e sg ed. ex = e # sg @ ed \<and> (e = 101 \<or> e = 69) \<and> sign_text sg \<and> digits_text ed)"

definition decimal_text :: "buffer \<Rightarrow> bool" where
  "decimal_text t \<longleftrightarrow>
     (\<exists>sg ip fr ex. t = sg @ ip @ fr @ ex
        \<and> sign_text sg \<and> digits_text ip \<and> fraction_text fr \<and> exponent_text ex)"

definition based_prefix :: "buffer \<Rightarrow> bool" where
  "based_prefix s \<longleftrightarrow>
     (let pos = (if peek s 0 = PLUS \<or> peek s 0 = DASH then 1 else 0);
          nxt = peek s (pos + 1)
      in peek s pos = DIGIT_0
         \<and> (nxt = LOWER_X \<or> nxt = UPPER_X \<or> nxt = LOWER_O \<or> nxt = UPPER_O
            \<or> nxt = LOWER_B \<or> nxt = UPPER_B))"

text \<open>The position after the fraction part, from the position after the integer part.\<close>

definition fraction_end :: "buffer \<Rightarrow> nat \<Rightarrow> nat" where
  "fraction_end s pos1 =
     (if peek s pos1 = DOT
      then (if isDigit (peek s (pos1 + 1)) then digit_run s (pos1 + 1) else pos1 + 1)
      else pos1)"

definition text_char :: "nat \<Rightarrow> bool" where
  "text_char c \<longleftrightarrow> c \<noteq> 34 \<and> c \<noteq> 92 \<and> c \<noteq> 10 \<and> c \<noteq> 13"

text \<open>A code unit that is no line terminator and not the end of input.\<close>

definition inline :: "int \<Rightarrow> bool" where
  "inline c \<longleftrightarrow> c \<noteq> NEWLINE \<and> c \<noteq> CR \<and> c \<noteq> - 1"

text \<open>
  A string body that the loop of \<open>stringToken\<close> passes from end to end: text characters
  (no quote, backslash or line terminator), simple escapes, and \<open>\u\<close> with four
  hexadecimal digits.
\<close>

fun string_body :: "buffer \<Rightarrow> bool" where
  "string_body [] \<longleftrightarrow> True"
| "string_body (c # cs) \<longleftrightarrow>
     (if c = 92 then
        (case cs of
           [] \<Rightarrow> False
         | e # es \<Rightarrow>
             if e = 117
             then 4 \<le> length es \<and> list_all (\<lambda>h. isHex (int h)) (take 4 es)
                  \<and> string_body (drop 4 es)
             else int e \<in> set simple_escapes \<and> string_body es)
      else text_char c \<and> string_body cs)"

section \<open>Facts about the loops\<close>

lemma peek_eof: "peek s k = - 1 \<longleftrightarrow> length s \<le> k"
  by (auto simp: peek_def)

lemma peek_shift: "peek (pre @ r) (length pre + k) = peek r k"
  by (simp add: peek_def nth_append)

lemma peek_shift0: "peek (pre @ r) (length pre) = peek r 0"
  using peek_shift [of pre r 0] by simp

lemma peek_Cons0: "peek (x # r) 0 = int x"
  by (simp add: peek_def)

lemma peek_Nil: "peek [] k = - 1"
  by (simp add: peek_def)

lemma peek_Cons_Suc: "peek (x # r) (Suc k) = peek r k"
  by (simp add: peek_def)

lemma peek_ge: "- 1 \<le> peek s k"
  by (simp add: peek_def)

lemma count_spaces_run:
  assumes "list_all blank ws" and "peek r 0 \<noteq> SPACE" and "peek r 0 \<noteq> TAB"
  shows "count_spaces (pre @ ws @ r) n (length pre) = (n + length ws, length pre + length ws)"
  using assms
proof (induction ws arbitrary: pre n)
  case Nil
  then show ?case
    by (subst count_spaces.simps) (simp add: peek_shift0)
next
  case (Cons w ws)
  have w: "int w = SPACE \<or> int w = TAB"
    using Cons.prems(1) by (auto simp: blank_def)
  have "count_spaces ((pre @ [w]) @ ws @ r) (n + 1) (length (pre @ [w]))
          = (n + 1 + length ws, length (pre @ [w]) + length ws)"
    using Cons.prems by (intro Cons.IH) simp_all
  then show ?case
    using w by (subst count_spaces.simps) (simp add: peek_shift0 peek_Cons0)
qed

lemma count_spaces_line:
  assumes "list_all blank ws" and "peek r 0 \<noteq> SPACE" and "peek r 0 \<noteq> TAB"
  shows "count_spaces (nl # ws @ r) 0 (Suc 0) = (length ws, Suc (length ws))"
  using count_spaces_run [OF assms, of "[nl]" 0] by simp

lemma indentation_line:
  assumes nl: "nl = 10 \<or> nl = 13" and ws: "list_all blank ws"
    and r: "peek r 0 \<noteq> SPACE" "peek r 0 \<noteq> TAB"
  shows "indentation ctx (nl # ws @ r) =
           (if peek r 0 = NEWLINE \<or> peek r 0 = CR \<or> peek r 0 = - 1 then Some (Newline, 1)
            else if int (length ws) > ctx then Some (Indent, Suc (length ws))
            else if int (length ws) < ctx then Some (Dedent, 0)
            else Some (Newline, Suc (length ws)))"
proof -
  have p: "peek (nl # ws @ r) (Suc (length ws)) = peek r 0"
    using peek_shift0 [of "nl # ws" r] by simp
  show ?thesis
    using nl by (auto simp: indentation_def peek_Cons0 count_spaces_line [OF ws r] p)
qed

lemma indentation_content:
  assumes "c \<notin> {10, 13}"
  shows "indentation ctx (c # rest) = None"
  using assms by (auto simp: indentation_def peek_Cons0)

lemma indentation_Dedent_pos: "indentation ctx s = Some (Dedent, n) \<Longrightarrow> 0 < ctx"
  by (auto simp: indentation_def Let_def split: if_splits prod.splits)

lemma shift_inv:
  assumes "0 \<le> ctx" and "even ctx" and "t = Dedent \<longrightarrow> 0 < ctx"
  shows "0 \<le> trackIndent_shift ctx t \<and> even (trackIndent_shift ctx t)"
proof (cases "t = Dedent")
  case True
  with assms have "0 < ctx" by simp
  with \<open>even ctx\<close> have "2 \<le> ctx" by (elim evenE) simp
  with True assms show ?thesis by (simp add: trackIndent_shift_def)
next
  case False
  with assms show ?thesis by (simp add: trackIndent_shift_def)
qed

lemma track_inv:
  assumes "0 \<le> ctx" and "even ctx" and "\<forall>t. Consume t \<in> set es \<longrightarrow> t \<noteq> Dedent"
  shows "0 \<le> track ctx es \<and> even (track ctx es)"
  using assms
proof (induction es arbitrary: ctx)
  case Nil
  then show ?case by simp
next
  case (Cons e es)
  show ?case
  proof (cases e)
    case (Ask s)
    show ?thesis
    proof (cases "indentation ctx s")
      case None
      with Ask Cons show ?thesis by simp
    next
      case (Some tn)
      obtain t n where tn: "tn = (t, n)" by (cases tn)
      have "t = Dedent \<longrightarrow> 0 < ctx"
        using Some tn indentation_Dedent_pos by blast
      then have "0 \<le> trackIndent_shift ctx t \<and> even (trackIndent_shift ctx t)"
        using Cons.prems shift_inv by blast
      then show ?thesis
        using Ask Some tn Cons by simp
    qed
  next
    case (Consume t)
    then have "t \<noteq> Dedent" using Cons.prems by simp
    then have "0 \<le> trackIndent_shift ctx t \<and> even (trackIndent_shift ctx t)"
      using Cons.prems shift_inv by blast
    then show ?thesis
      using Consume Cons by simp
  qed
qed

lemma check_indent_run:
  assumes "list_all blank ws" and "peek r 0 \<noteq> SPACE" and "peek r 0 \<noteq> TAB"
  shows "check_indent (pre @ ws @ r) i (length pre) len
           = (i + length ws, length pre + length ws, len + int (length ws))"
  using assms
proof (induction ws arbitrary: pre i len)
  case Nil
  then show ?case
    by (subst check_indent.simps) (simp add: peek_shift0)
next
  case (Cons w ws)
  have w: "int w = SPACE \<or> int w = TAB"
    using Cons.prems(1) by (auto simp: blank_def)
  have "check_indent ((pre @ [w]) @ ws @ r) (i + 1) (length (pre @ [w])) (len + 1)
          = (i + 1 + length ws, length (pre @ [w]) + length ws, len + 1 + int (length ws))"
    using Cons.prems by (intro Cons.IH) simp_all
  then show ?case
    using w by (subst check_indent.simps) (simp add: peek_shift0 peek_Cons0 advance_def)
qed

lemma ml_loop_line:
  assumes len: "len < MAX_LENGTH" and nl: "nl = 10 \<or> nl = 13" and ws: "list_all blank ws"
    and r: "peek r 0 \<noteq> SPACE" "peek r 0 \<noteq> TAB"
  shows "ml_loop ctx start (pre @ nl # ws @ r) (length pre) len =
           (if fence_at r 0 start
            then (if int (length ws) \<noteq> ctx then None
                  else Some (advance (pre @ nl # ws @ r) (length pre + length ws + 1) 3))
            else ml_loop ctx start (pre @ nl # ws @ r) (length pre + length ws + 1)
                   (len + 1 + int (length ws)))"
proof -
  let ?s = "pre @ nl # ws @ r"
  have p0: "(peek ?s (length pre) = NEWLINE \<or> peek ?s (length pre) = CR) = True"
    "(peek ?s (length pre) = - 1) = False"
    using nl by (auto simp: peek_shift0 peek_Cons0)
  have adv: "advance ?s (length pre) (Suc 0) = length (pre @ [nl])"
    by (simp add: advance_def)
  have ci: "check_indent ?s 0 (advance ?s (length pre) (Suc 0)) (len + 1)
              = (length ws, Suc (length pre + length ws), len + 1 + int (length ws))"
    using check_indent_run [OF ws r, of "pre @ [nl]" 0 "len + 1"] unfolding adv by simp
  have pk: "peek ?s (Suc (length pre + length ws) + k) = peek r k" for k
    using peek_shift [of "pre @ nl # ws" r k] by (simp add: add.commute add.left_commute)
  have f: "(peek ?s (Suc (length pre + length ws)) = start
             \<and> peek ?s (Suc (Suc (length pre + length ws))) = start
             \<and> peek ?s (Suc (Suc (Suc (length pre + length ws)))) = start)
           = fence_at r 0 start"
    using pk [of 0] pk [of 1] pk [of 2] by (simp add: fence_at_def numeral_2_eq_2)
  show ?thesis
    using len
    by (subst ml_loop.simps) (simp add: p0 ci f Let_def)
qed


lemma ml_loop_plain:
  assumes "list_all plain body" and "len + int (length body) \<le> MAX_LENGTH"
  shows "ml_loop ctx start (pre @ body @ r) (length pre) len
           = ml_loop ctx start (pre @ body @ r) (length pre + length body)
               (len + int (length body))"
  using assms
proof (induction body arbitrary: pre len)
  case Nil
  then show ?case by simp
next
  case (Cons b body)
  let ?s = "pre @ b # body @ r"
  have b: "(peek ?s (length pre) = - 1) = False"
    "(peek ?s (length pre) = NEWLINE \<or> peek ?s (length pre) = CR) = False"
    "(peek ?s (length pre) = BACKSLASH) = False"
    using Cons.prems(1) by (auto simp: plain_def peek_shift0 peek_Cons0)
  have len: "len < MAX_LENGTH"
    using Cons.prems(2) by simp
  have adv: "advance ?s (length pre) (Suc 0) = length (pre @ [b])"
    by (simp add: advance_def)
  have step: "ml_loop ctx start ?s (length pre) len
                = ml_loop ctx start ?s (length (pre @ [b])) (len + 1)"
    using len by (subst ml_loop.simps) (simp add: b adv Let_def)
  have "ml_loop ctx start ((pre @ [b]) @ body @ r) (length (pre @ [b])) (len + 1)
          = ml_loop ctx start ((pre @ [b]) @ body @ r) (length (pre @ [b]) + length body)
              (len + 1 + int (length body))"
    using Cons.prems by (intro Cons.IH) simp_all
  with step show ?case by (simp add: ac_simps)
qed

lemma fence_at_fence: "fence_at ([f, f, f] @ rest) 0 (int f)"
  by (simp add: fence_at_def peek_def)

lemma multilineStrings_open:
  assumes f: "f = 34 \<or> f = 96" and nl: "nl = 10 \<or> nl = 13"
  shows "multilineStrings ctx ([f, f, f] @ nl # r)
           = map_option (\<lambda>e. (fence_kind f, e)) (ml_loop ctx (int f) ([f, f, f] @ nl # r) 3 0)"
  using f nl
  by (auto simp: multilineStrings_def peek_def advance_def fence_kind_def Let_def numeral_3_eq_3)

lemma multilineStrings_fence_line:
  assumes f: "f = 34 \<or> f = 96" and nl: "nl = 10 \<or> nl = 13" and ws: "list_all blank ws"
  shows "multilineStrings ctx ([f, f, f] @ nl # ws @ [f, f, f] @ rest)
           = (if int (length ws) = ctx then Some (fence_kind f, length ws + 7) else None)"
proof -
  let ?r = "[f, f, f] @ rest"
  have r: "peek ?r 0 \<noteq> SPACE" "peek ?r 0 \<noteq> TAB"
    using f by (auto simp: peek_def)
  have "ml_loop ctx (int f) ([f, f, f] @ nl # ws @ ?r) (length [f, f, f]) 0
          = (if int (length ws) = ctx then Some (length ws + 7) else None)"
    using ml_loop_line [OF _ nl ws r, of 0 ctx "int f" "[f, f, f]"]
    by (simp add: fence_at_fence advance_def del: append.simps)
  then show ?thesis
    using multilineStrings_open [OF f nl, of ctx "ws @ ?r"] by (simp add: numeral_3_eq_3)
qed

lemma ml_loop_fence_line:
  assumes f: "f = 34 \<or> f = 96" and nl: "nl = 10 \<or> nl = 13" and ws: "list_all blank ws"
    and len: "len < MAX_LENGTH"
  shows "ml_loop ctx (int f) (pre @ nl # ws @ [f, f, f] @ rest) (length pre) len
           = (if int (length ws) = ctx then Some (length pre + length ws + 4) else None)"
proof -
  let ?r = "[f, f, f] @ rest"
  have r: "peek ?r 0 \<noteq> SPACE" "peek ?r 0 \<noteq> TAB"
    using f by (auto simp: peek_def)
  show ?thesis
    using ml_loop_line [OF len nl ws r, of ctx "int f" pre]
    by (simp add: fence_at_fence advance_def del: append.simps)
qed


lemma multilineStrings_one_line:
  assumes f: "f = 34 \<or> f = 96" and nl0: "nl0 = 10 \<or> nl0 = 13" and nl: "nl = 10 \<or> nl = 13"
    and ws0: "list_all blank ws0" and ws: "list_all blank ws"
    and c: "plain c" "\<not> blank c" "c \<noteq> f" and line: "list_all plain line"
    and bound: "int (length ws0) + int (length line) + 2 < MAX_LENGTH"
  shows "multilineStrings ctx ([f, f, f] @ nl0 # ws0 @ (c # line) @ nl # ws @ [f, f, f] @ rest)
           = (if int (length ws) = ctx
              then Some (fence_kind f, length ws0 + length line + length ws + 9)
              else None)"
proof -
  let ?tail = "nl # ws @ [f, f, f] @ rest"
  let ?r0 = "(c # line) @ ?tail"
  let ?s = "[f, f, f] @ nl0 # ws0 @ ?r0"
  have r0: "peek ?r0 0 \<noteq> SPACE" "peek ?r0 0 \<noteq> TAB" "\<not> fence_at ?r0 0 (int f)"
    using c by (auto simp: peek_def blank_def fence_at_def)
  have step1: "ml_loop ctx (int f) ?s 3 0
                 = ml_loop ctx (int f) ?s (length ws0 + 4) (1 + int (length ws0))"
    using ml_loop_line [OF _ nl0 ws0 r0(1,2), of 0 ctx "int f" "[f, f, f]"] r0(3)
    by (simp del: append.simps add: ac_simps eval_nat_numeral)
  have s2: "?s = ([f, f, f] @ nl0 # ws0) @ (c # line) @ ?tail"
    by simp
  have step2: "ml_loop ctx (int f) ?s (length ws0 + 4) (1 + int (length ws0))
                 = ml_loop ctx (int f) ?s (length ws0 + length line + 5)
                     (2 + int (length ws0) + int (length line))"
    using ml_loop_plain [of "c # line" "1 + int (length ws0)" ctx "int f"
        "[f, f, f] @ nl0 # ws0" ?tail] c(1) line bound
    unfolding s2 [symmetric] by (simp add: ac_simps eval_nat_numeral)
  have s3: "?s = ([f, f, f] @ nl0 # ws0 @ c # line) @ ?tail"
    by simp
  have step3: "ml_loop ctx (int f) ?s (length ws0 + length line + 5)
                 (2 + int (length ws0) + int (length line))
               = (if int (length ws) = ctx
                  then Some (length ws0 + length line + length ws + 9) else None)"
    using ml_loop_fence_line [OF f nl ws, of "2 + int (length ws0) + int (length line)" ctx
        "[f, f, f] @ nl0 # ws0 @ c # line" rest] bound
    unfolding s3 [symmetric] by (simp add: ac_simps eval_nat_numeral)
  show ?thesis
    using multilineStrings_open [OF f nl0, of ctx "ws0 @ ?r0"] step1 step2 step3
    by (simp del: append.simps)
qed


section \<open>The line boundary scanner\<close>

text \<open>
  C2, as stated, fails on a blank line: after a terminator followed by two blanks and
  another terminator, under context 0, the count of blanks exceeds the context, and the
  tokenizer accepts a Newline of one code unit, not an Indent of three.
\<close>

theorem indentation_blank_line_counterexample:
  "indentation 0 (codes ''\<newline>  \<newline>x'') = Some (Newline, 1)"
  by code_simp

text \<open>
  C2, amended: on a line that is not blank (the run of blanks after the terminator is
  followed by a character that is neither a line terminator nor the end of input), the
  tokenizer accepts Indent over the terminator and the blanks when their count exceeds the
  context, a Dedent of width zero when it is below the context, and Newline over the
  terminator and the blanks when it equals the context; at the end of input it accepts a
  Dedent of width zero when the context is positive.
\<close>

theorem indentation_decision:
  assumes "nl = 10 \<or> nl = 13" and "list_all blank ws" and "c \<notin> {32, 9, 10, 13}"
  shows "(int (length ws) > ctx \<longrightarrow>
            indentation ctx (nl # ws @ c # rest) = Some (Indent, Suc (length ws)))
         \<and> (int (length ws) < ctx \<longrightarrow>
            indentation ctx (nl # ws @ c # rest) = Some (Dedent, 0))
         \<and> (int (length ws) = ctx \<longrightarrow>
            indentation ctx (nl # ws @ c # rest) = Some (Newline, Suc (length ws)))
         \<and> (0 < ctx \<longrightarrow> indentation ctx [] = Some (Dedent, 0))"
proof -
  have "peek (c # rest) 0 \<noteq> SPACE" "peek (c # rest) 0 \<noteq> TAB"
       "peek (c # rest) 0 \<noteq> NEWLINE" "peek (c # rest) 0 \<noteq> CR" "peek (c # rest) 0 \<noteq> - 1"
    using assms(3) by (auto simp: peek_Cons0)
  then show ?thesis
    using indentation_line [OF assms(1,2), of "c # rest" ctx]
    by (simp add: indentation_def peek_Nil)
qed

theorem indentation_decision_witness:
  "indentation 0 [10, 32, 32, 120] = Some (Indent, 3)
   \<and> indentation 2 [10, 120] = Some (Dedent, 0)
   \<and> indentation 2 [13, 32, 9, 120] = Some (Newline, 3)
   \<and> indentation 2 [] = Some (Dedent, 0)"
  using indentation_decision [of 10 "[32, 32]" 120 0 "[]"]
    indentation_decision [of 10 "[]" 120 2 "[]"]
    indentation_decision [of 13 "[32, 9]" 120 2 "[]"]
  by (simp add: blank_def)

section \<open>The context tracker\<close>

text \<open>
  C3: along every run that starts from the initial context, in which Dedent tokens come
  from the indentation tokenizer only, the context is a non-negative multiple of 2; the
  tracker adds 2 on Indent, subtracts 2 on Dedent (without clamping) and leaves the context
  alone on every other token; and under context 0 the tokenizer never accepts a Dedent.
\<close>

theorem context_invariant:
  assumes "\<forall>t. Consume t \<in> set es \<longrightarrow> t \<noteq> Dedent"
  shows "0 \<le> track trackIndent_start es \<and> 2 dvd track trackIndent_start es
         \<and> trackIndent_shift ctx Indent = ctx + 2
         \<and> trackIndent_shift ctx Dedent = ctx - 2
         \<and> (t \<noteq> Indent \<and> t \<noteq> Dedent \<longrightarrow> trackIndent_shift ctx t = ctx)
         \<and> indentation 0 s \<noteq> Some (Dedent, n)"
proof -
  have "0 \<le> track 0 es \<and> even (track 0 es)"
    using track_inv [of 0 es] assms by simp
  moreover have "indentation 0 s \<noteq> Some (Dedent, n)"
    using indentation_Dedent_pos [of 0 s n] by auto
  ultimately show ?thesis
    by (simp add: trackIndent_start_def trackIndent_shift_def)
qed

theorem context_invariant_witness:
  "0 \<le> track trackIndent_start
          [Ask [10, 32, 32, 120], Consume Key, Ask [10, 32, 32, 32, 32, 120],
           Consume NumberToken, Ask [10, 120]]
   \<and> 2 dvd track trackIndent_start
          [Ask [10, 32, 32, 120], Consume Key, Ask [10, 32, 32, 32, 32, 120],
           Consume NumberToken, Ask [10, 120]]
   \<and> trackIndent_shift 0 Dedent = - 2
   \<and> trackIndent_shift 4 Key = 4"
  using context_invariant [of "[Ask [10, 32, 32, 120], Consume Key,
      Ask [10, 32, 32, 32, 32, 120], Consume NumberToken, Ask [10, 120]]" 0 Key "[]" 0]
    context_invariant [of "[]" 4 Key "[]" 0]
  by simp

text \<open>
  C10, as stated, fails on a line of blanks only: five blanks under context 0 exceed the
  context, yet the tokenizer accepts a Newline and the context stays 0.
\<close>

theorem single_indent_blank_line_counterexample:
  "indentation 0 (codes ''\<newline>     \<newline>x'') = Some (Newline, 1)
   \<and> track 0 [Ask (codes ''\<newline>     \<newline>x'')] = 0"
  by code_simp

text \<open>
  C10, amended: for every line that is not blank and whose count of leading blanks exceeds
  the context by any amount, the tokenizer accepts one Indent over the terminator and the
  blanks, asked again at the line's first character it accepts nothing, and the context
  grows by exactly 2; so the context can be below the line's column, and a closing fence
  of a multiline string at that column closes only when the column equals the context.
\<close>

theorem indentation_single_indent:
  assumes "nl = 10 \<or> nl = 13" and "list_all blank ws" and "c \<notin> {32, 9, 10, 13}"
    and "ctx < int (length ws)"
  shows "indentation ctx (nl # ws @ c # rest) = Some (Indent, Suc (length ws))
         \<and> indentation ctx' (drop (Suc (length ws)) (nl # ws @ c # rest)) = None
         \<and> track ctx [Ask (nl # ws @ c # rest), Ask (c # rest)] = ctx + 2
         \<and> ((f = 34 \<or> f = 96) \<and> (nl' = 10 \<or> nl' = 13) \<longrightarrow>
              multilineStrings (ctx + 2) ([f, f, f] @ nl' # ws @ [f, f, f] @ rest')
                = (if int (length ws) = ctx + 2 then Some (fence_kind f, length ws + 7)
                   else None))"
proof -
  have c: "peek (c # rest) 0 \<noteq> SPACE" "peek (c # rest) 0 \<noteq> TAB"
       "peek (c # rest) 0 \<noteq> NEWLINE" "peek (c # rest) 0 \<noteq> CR" "peek (c # rest) 0 \<noteq> - 1"
    using assms(3) by (auto simp: peek_Cons0)
  have a: "indentation ctx (nl # ws @ c # rest) = Some (Indent, Suc (length ws))"
    using indentation_line [OF assms(1,2) c(1,2), of ctx] c assms(4) by simp
  have b: "indentation k (c # rest) = None" for k
    using assms(3) by (intro indentation_content) simp
  have d: "track ctx [Ask (nl # ws @ c # rest), Ask (c # rest)] = ctx + 2"
    by (simp add: a b trackIndent_shift_def)
  have e: "(f = 34 \<or> f = 96) \<and> (nl' = 10 \<or> nl' = 13) \<longrightarrow>
              multilineStrings (ctx + 2) ([f, f, f] @ nl' # ws @ [f, f, f] @ rest')
                = (if int (length ws) = ctx + 2 then Some (fence_kind f, length ws + 7)
                   else None)"
    using multilineStrings_fence_line [OF _ _ assms(2), of f nl' "ctx + 2" rest'] by blast
  show ?thesis
    using a b d e by simp
qed

theorem indentation_single_indent_witness:
  "indentation 0 (10 # [32, 32, 32, 32, 32] @ 120 # []) = Some (Indent, 6)
   \<and> track 0 [Ask (10 # [32, 32, 32, 32, 32] @ 120 # []), Ask [120]] = 2
   \<and> multilineStrings 2 ([34, 34, 34] @ 10 # [32, 32, 32, 32, 32] @ [34, 34, 34] @ []) = None"
  using indentation_single_indent [of 10 "[32, 32, 32, 32, 32]" 120 0 "[]" 2 34 10 "[]"]
  by (simp add: blank_def trackIndent_shift_def)

section \<open>The multiline string scanner\<close>

text \<open>
  C1, as stated, fails: under context 0, a block whose body holds a fence line indented by
  two blanks, followed by a fence line at column 0, is not accepted at the later fence;
  the tokenizer returns without a token at the first fence line. Without the wrongly
  indented line the same block is accepted.
\<close>

theorem multilineStrings_wrong_fence_counterexample:
  "multilineStrings 0 (codes ''```\<newline>  x\<newline>  ```\<newline>```'') = None
   \<and> multilineStrings 0 (codes ''```\<newline>  x\<newline>```'') = Some (FoldedString, 11)"
  by code_simp

text \<open>
  C1, amended: when a line terminator inside the body is followed by a run of blanks and
  then three fence characters, the fence closes the token if the count of blanks equals the
  context, and otherwise the whole token is declined at once, whatever follows; only when
  no fence follows the run are the terminator and the blanks body content, and scanning
  goes on behind them. So a block whose first fence line (directly after the opening
  fence, or after one line of content) is wrongly indented is declined for every rest of
  the input.
\<close>

theorem multilineStrings_fence_indentation:
  assumes "f = 34 \<or> f = 96" and "nl = 10 \<or> nl = 13" and "list_all blank ws"
  shows "(len < MAX_LENGTH \<longrightarrow>
            ml_loop ctx (int f) (pre @ nl # ws @ [f, f, f] @ rest) (length pre) len
              = (if int (length ws) = ctx then Some (length pre + length ws + 4) else None))
         \<and> (len < MAX_LENGTH \<and> peek r 0 \<noteq> SPACE \<and> peek r 0 \<noteq> TAB \<and> \<not> fence_at r 0 (int f) \<longrightarrow>
            ml_loop ctx (int f) (pre @ nl # ws @ r) (length pre) len
              = ml_loop ctx (int f) (pre @ nl # ws @ r) (length pre + length ws + 1)
                  (len + 1 + int (length ws)))
         \<and> multilineStrings ctx ([f, f, f] @ nl # ws @ [f, f, f] @ rest)
              = (if int (length ws) = ctx then Some (fence_kind f, length ws + 7) else None)
         \<and> ((nl0 = 10 \<or> nl0 = 13) \<and> list_all blank ws0 \<and> plain c \<and> \<not> blank c \<and> c \<noteq> f
              \<and> list_all plain line \<and> int (length ws0) + int (length line) + 2 < MAX_LENGTH \<longrightarrow>
            multilineStrings ctx
                ([f, f, f] @ nl0 # ws0 @ (c # line) @ nl # ws @ [f, f, f] @ rest)
              = (if int (length ws) = ctx
                 then Some (fence_kind f, length ws0 + length line + length ws + 9)
                 else None))"
proof -
  have a: "len < MAX_LENGTH \<longrightarrow>
            ml_loop ctx (int f) (pre @ nl # ws @ [f, f, f] @ rest) (length pre) len
              = (if int (length ws) = ctx then Some (length pre + length ws + 4) else None)"
    using ml_loop_fence_line [OF assms, of len ctx pre rest] by blast
  have b: "len < MAX_LENGTH \<and> peek r 0 \<noteq> SPACE \<and> peek r 0 \<noteq> TAB \<and> \<not> fence_at r 0 (int f) \<longrightarrow>
            ml_loop ctx (int f) (pre @ nl # ws @ r) (length pre) len
              = ml_loop ctx (int f) (pre @ nl # ws @ r) (length pre + length ws + 1)
                  (len + 1 + int (length ws))"
    using ml_loop_line [OF _ assms(2,3), of len r ctx "int f" pre] by auto
  have c: "multilineStrings ctx ([f, f, f] @ nl # ws @ [f, f, f] @ rest)
              = (if int (length ws) = ctx then Some (fence_kind f, length ws + 7) else None)"
    by (rule multilineStrings_fence_line [OF assms])
  have d: "(nl0 = 10 \<or> nl0 = 13) \<and> list_all blank ws0 \<and> plain c \<and> \<not> blank c \<and> c \<noteq> f
              \<and> list_all plain line \<and> int (length ws0) + int (length line) + 2 < MAX_LENGTH \<longrightarrow>
            multilineStrings ctx
                ([f, f, f] @ nl0 # ws0 @ (c # line) @ nl # ws @ [f, f, f] @ rest)
              = (if int (length ws) = ctx
                 then Some (fence_kind f, length ws0 + length line + length ws + 9)
                 else None)"
    using multilineStrings_one_line [OF assms(1) _ assms(2) _ assms(3), of nl0 ws0 c line ctx rest]
    by blast
  from a b c d show ?thesis by blast
qed

theorem multilineStrings_fence_indentation_witness:
  "ml_loop 0 34 ([34, 34, 34] @ 10 # [32, 32] @ [34, 34, 34] @ [10, 34, 34, 34])
       (length [34, 34, 34 :: nat]) 0 = None
   \<and> ml_loop 2 34 ([34, 34, 34] @ 10 # [32, 32] @ [34, 34, 34] @ [10, 34, 34, 34])
       (length [34, 34, 34 :: nat]) 0 = Some (length [34, 34, 34 :: nat] + length [32, 32 :: nat] + 4)
   \<and> ml_loop 0 34 ([34, 34, 34] @ 10 # [32, 32] @ [120]) (length [34, 34, 34 :: nat]) 0
       = ml_loop 0 34 ([34, 34, 34] @ 10 # [32, 32] @ [120])
           (length [34, 34, 34 :: nat] + length [32, 32 :: nat] + 1) 3
   \<and> multilineStrings 0 ([34, 34, 34] @ 10 # [32, 32] @ [34, 34, 34] @ [10, 34, 34, 34]) = None
   \<and> multilineStrings 0
        ([34, 34, 34] @ 10 # [32] @ (120 # [121]) @ 10 # [32, 32] @ [34, 34, 34] @ [10, 34, 34, 34])
       = None"
  using multilineStrings_fence_indentation [where f = 34 and nl = 10 and ws = "[32, 32]"
      and len = 0 and ctx = 0 and pre = "[34, 34, 34]" and rest = "[10, 34, 34, 34]"
      and r = "[120]" and ?nl0.0 = 10 and ?ws0.0 = "[32]" and c = 120 and line = "[121]"]
    multilineStrings_fence_indentation [where f = 34 and nl = 10 and ws = "[32, 32]"
      and len = 0 and ctx = 2 and pre = "[34, 34, 34]" and rest = "[10, 34, 34, 34]"
      and r = "[120]" and ?nl0.0 = 10 and ?ws0.0 = "[32]" and c = 120 and line = "[121]"]
  by (simp add: blank_def plain_def fence_at_def peek_def fence_kind_def)

section \<open>The number scanner\<close>


lemma octal_loop_invalid:
  assumes "list_all (\<lambda>c. (48 \<le> c \<and> c \<le> 55) \<or> c = 95) body" and "d = 56 \<or> d = 57"
  shows "octal_loop (pre @ body @ d # rest) (length pre) valid = None"
  using assms
proof (induction body arbitrary: pre valid)
  case Nil
  then show ?case
    by (subst octal_loop.simps) (auto simp: peek_shift0 peek_Cons0 isDigit_def)
next
  case (Cons b body)
  have ih: "octal_loop ((pre @ [b]) @ body @ d # rest) (length (pre @ [b])) v = None" for v
    using Cons.prems by (intro Cons.IH) simp_all
  show ?case
    using Cons.prems(1) ih [of True] ih [of valid]
    by (subst octal_loop.simps) (auto simp: peek_shift0 peek_Cons0 Let_def)
qed

lemma binary_loop_invalid:
  assumes "list_all (\<lambda>c. c = 48 \<or> c = 49 \<or> c = 95) body" and "50 \<le> d \<and> d \<le> 57"
  shows "binary_loop (pre @ body @ d # rest) (length pre) valid = None"
  using assms
proof (induction body arbitrary: pre valid)
  case Nil
  then show ?case
    by (subst binary_loop.simps) (auto simp: peek_shift0 peek_Cons0 isDigit_def)
next
  case (Cons b body)
  have ih: "binary_loop ((pre @ [b]) @ body @ d # rest) (length (pre @ [b])) v = None" for v
    using Cons.prems by (intro Cons.IH) simp_all
  show ?case
    using Cons.prems(1) ih [of True] ih [of valid]
    by (subst binary_loop.simps) (auto simp: peek_shift0 peek_Cons0 Let_def)
qed



lemma peek_Cons_1: "peek (x # r) 1 = peek r 0"
  by (simp add: peek_def)

lemma peek_Cons_numeral: "peek (x # r) (numeral n) = peek r (pred_numeral n)"
  by (simp add: peek_def numeral_eq_Suc)

lemma numberToken_octal:
  assumes "sg = [] \<or> sg = [43] \<or> sg = [45]" and "ob = 111 \<or> ob = 79"
  shows "numberToken (sg @ [48, ob] @ r)
           = (case octal_loop (sg @ [48, ob] @ r) (length sg + 2) False of
                None \<Rightarrow> None
              | Some (p, valid) \<Rightarrow> if valid then Some (NumberToken, p) else None)"
proof -
  have ob: "int ob \<noteq> LOWER_X" "int ob \<noteq> UPPER_X" "int ob = LOWER_O \<or> int ob = UPPER_O"
    using assms(2) by auto
  consider "sg = []" | "sg = [43]" | "sg = [45]"
    using assms(1) by blast
  then show ?thesis
  proof cases
    case 1
    then show ?thesis
      using ob by (simp add: numberToken_def peek_Cons0 peek_Cons_1 peek_Cons_Suc isDigit_def Let_def)
  next
    case 2
    then show ?thesis
      using ob
      by (simp add: numberToken_def peek_Cons0 peek_Cons_1 peek_Cons_Suc peek_Cons_numeral isDigit_def Let_def)
  next
    case 3
    then show ?thesis
      using ob
      by (simp add: numberToken_def peek_Cons0 peek_Cons_1 peek_Cons_Suc peek_Cons_numeral isDigit_def Let_def)
  qed
qed

lemma numberToken_binary:
  assumes "sg = [] \<or> sg = [43] \<or> sg = [45]" and "ob = 98 \<or> ob = 66"
  shows "numberToken (sg @ [48, ob] @ r)
           = (case binary_loop (sg @ [48, ob] @ r) (length sg + 2) False of
                None \<Rightarrow> None
              | Some (p, valid) \<Rightarrow> if valid then Some (NumberToken, p) else None)"
proof -
  have ob: "int ob \<noteq> LOWER_X" "int ob \<noteq> UPPER_X" "int ob \<noteq> LOWER_O" "int ob \<noteq> UPPER_O"
    "int ob = LOWER_B \<or> int ob = UPPER_B"
    using assms(2) by auto
  consider "sg = []" | "sg = [43]" | "sg = [45]"
    using assms(1) by blast
  then show ?thesis
  proof cases
    case 1
    then show ?thesis
      using ob by (simp add: numberToken_def peek_Cons0 peek_Cons_1 peek_Cons_Suc isDigit_def Let_def)
  next
    case 2
    then show ?thesis
      using ob
      by (simp add: numberToken_def peek_Cons0 peek_Cons_1 peek_Cons_Suc peek_Cons_numeral isDigit_def Let_def)
  next
    case 3
    then show ?thesis
      using ob
      by (simp add: numberToken_def peek_Cons0 peek_Cons_1 peek_Cons_Suc peek_Cons_numeral isDigit_def Let_def)
  qed
qed

text \<open>
  C4: in octal and in binary mode, a decimal digit that is no digit of the base, met after
  any run of valid digits and underscores, makes the tokenizer return without a token; so
  it does on \<open>0o759\<close>.
\<close>

theorem numberToken_invalid_base_digit:
  assumes "sg = [] \<or> sg = [43] \<or> sg = [45]"
  shows "((ob = 111 \<or> ob = 79) \<and> list_all (\<lambda>c. (48 \<le> c \<and> c \<le> 55) \<or> c = 95) body
            \<and> (d = 56 \<or> d = 57) \<longrightarrow>
          numberToken (sg @ [48, ob] @ body @ d # rest) = None)
         \<and> ((ob = 98 \<or> ob = 66) \<and> list_all (\<lambda>c. c = 48 \<or> c = 49 \<or> c = 95) body
            \<and> 50 \<le> d \<and> d \<le> 57 \<longrightarrow>
          numberToken (sg @ [48, ob] @ body @ d # rest) = None)
         \<and> numberToken (codes ''0o759'') = None"
proof -
  have a: "numberToken (sg @ [48, ob] @ body @ d # rest) = None"
    if "ob = 111 \<or> ob = 79" "list_all (\<lambda>c. (48 \<le> c \<and> c \<le> 55) \<or> c = 95) body" "d = 56 \<or> d = 57"
    using numberToken_octal [OF assms that(1), of "body @ d # rest"]
      octal_loop_invalid [OF that(2,3), of "sg @ [48, ob]" rest False]
    by simp
  have b: "numberToken (sg @ [48, ob] @ body @ d # rest) = None"
    if "ob = 98 \<or> ob = 66" "list_all (\<lambda>c. c = 48 \<or> c = 49 \<or> c = 95) body" "50 \<le> d \<and> d \<le> 57"
    using numberToken_binary [OF assms that(1), of "body @ d # rest"]
      binary_loop_invalid [OF that(2,3), of "sg @ [48, ob]" rest False]
    by simp
  have c: "numberToken (codes ''0o759'') = None"
    by code_simp
  from a b c show ?thesis by simp
qed

theorem numberToken_invalid_base_digit_witness:
  "numberToken ([] @ [48, 111] @ [55, 53] @ 57 # []) = None
   \<and> numberToken ([45] @ [48, 98] @ [49, 95, 48] @ 50 # [49]) = None"
  using numberToken_invalid_base_digit [of "[]" 111 "[55, 53]" 57 "[]"]
    numberToken_invalid_base_digit [of "[45]" 98 "[49, 95, 48]" 50 "[49]"]
  by simp

text \<open>
  C6: the code accepts based literals with an underscore at the end of the token, and
  octal and binary literals with an underscore directly after the prefix; only the
  hexadecimal branch refuses the latter.
\<close>

theorem numberToken_based_underscores:
  "numberToken (codes ''0x1_'') = Some (NumberToken, 4)
   \<and> numberToken (codes ''0o7_'') = Some (NumberToken, 4)
   \<and> numberToken (codes ''0b1_'') = Some (NumberToken, 4)
   \<and> numberToken (codes ''0o_7'') = Some (NumberToken, 4)
   \<and> numberToken (codes ''0b_1'') = Some (NumberToken, 4)
   \<and> numberToken (codes ''0x_1'') = None"
  by code_simp

section \<open>Decimal literals\<close>

lemma peek_numeral: "peek s i = numeral k \<longleftrightarrow> i < length s \<and> s ! i = numeral k"
  by (auto simp: peek_def)

lemma peek_nth: "i < length s \<Longrightarrow> peek s i = int (s ! i)"
  by (simp add: peek_def)

lemma isDigit_peek_less: "isDigit (peek s i) \<Longrightarrow> i < length s"
  by (auto simp: peek_def isDigit_def split: if_splits)

lemma digit_run_ge: "p \<le> digit_run s p"
proof (induction s p rule: digit_run.induct)
  case (1 s pos)
  then show ?case
    by (subst digit_run.simps) (auto simp del: digit_run.simps)
qed

lemma digit_run_le: "p \<le> length s \<Longrightarrow> digit_run s p \<le> length s"
proof (induction s p rule: digit_run.induct)
  case (1 s pos)
  show ?case
  proof (cases "isDigit (peek s pos) \<or> peek s pos = UNDERSCORE")
    case True
    then have "pos < length s"
      by (auto simp: peek_def isDigit_def split: if_splits)
    then have "digit_run s (pos + 1) \<le> length s"
      using True "1.IH" by simp
    then show ?thesis
      using True by (subst digit_run.simps) simp
  next
    case False
    then show ?thesis
      using "1.prems" by (subst digit_run.simps) simp
  qed
qed

lemma digit_run_chars:
  "p \<le> i \<Longrightarrow> i < digit_run s p \<Longrightarrow> isDigit (peek s i) \<or> peek s i = UNDERSCORE"
proof (induction s p rule: digit_run.induct)
  case (1 s pos)
  show ?case
  proof (cases "isDigit (peek s pos) \<or> peek s pos = UNDERSCORE")
    case True
    then have dr: "digit_run s pos = digit_run s (pos + 1)"
      by (subst digit_run.simps) simp
    show ?thesis
    proof (cases "i = pos")
      case True
      with \<open>isDigit (peek s pos) \<or> peek s pos = UNDERSCORE\<close> show ?thesis by simp
    next
      case False
      with "1.prems" have "pos + 1 \<le> i" by simp
      then show ?thesis
        using "1.IH" [OF True] "1.prems"(2) dr by simp
    qed
  next
    case False
    then have "digit_run s pos = pos"
      by (subst digit_run.simps) simp
    with "1.prems" show ?thesis by simp
  qed
qed

lemma digit_run_digit: "isDigit (peek s p) \<Longrightarrow> p < digit_run s p"
  using digit_run_ge [of "p + 1" s] by (subst digit_run.simps) simp

lemma integer_run_eq:
  "integer_run s p h = (digit_run s p, snd (integer_run s p h))"
proof (induction s p h rule: integer_run.induct)
  case (1 s pos hasDigit)
  show ?case
  proof (cases "isDigit (peek s pos) \<or> peek s pos = UNDERSCORE")
    case True
    then show ?thesis
      using "1.IH" [OF True]
      by (subst integer_run.simps, subst digit_run.simps, subst (2) integer_run.simps) simp
  next
    case False
    then show ?thesis
      by (subst integer_run.simps, subst digit_run.simps, subst (2) integer_run.simps) simp
  qed
qed

lemma integer_run_keeps: "snd (integer_run s p True)"
proof (induction s p "True" rule: integer_run.induct)
  case (1 s pos)
  then show ?case
    by (subst integer_run.simps) (auto simp del: integer_run.simps)
qed

lemma integer_run_digit: "isDigit (peek s p) \<Longrightarrow> snd (integer_run s p h)"
  using integer_run_keeps [of s "p + 1"] by (subst integer_run.simps) simp

lemma integer_run_start:
  "isDigit (peek s p) \<Longrightarrow> integer_run s p h = (digit_run s p, True)"
  using integer_run_eq [of s p h] integer_run_digit [of s p h] by simp

lemma slice_append: "a \<le> b \<Longrightarrow> b \<le> c \<Longrightarrow> slice s a b @ slice s b c = slice s a c"
proof -
  assume ab: "a \<le> b" and bc: "b \<le> c"
  have "take ((b - a) + (c - b)) (drop a s)
          = take (b - a) (drop a s) @ take (c - b) (drop (b - a) (drop a s))"
    by (rule take_add)
  moreover have "(b - a) + (c - b) = c - a" "b - a + a = b"
    using ab bc by simp_all
  ultimately show ?thesis
    by (simp add: slice_def)
qed

lemma slice_take: "take n s = slice s 0 n"
  by (simp add: slice_def)

lemma slice_empty: "slice s a a = []"
  by (simp add: slice_def)

lemma slice_single: "a < length s \<Longrightarrow> slice s a (Suc a) = [s ! a]"
  by (simp add: slice_def take_Suc_conv_app_nth)

lemma slice_Cons: "a < b \<Longrightarrow> a < length s \<Longrightarrow> slice s a b = s ! a # slice s (Suc a) b"
  using slice_append [of a "Suc a" b s] slice_single [of a s] by simp

lemma length_slice: "b \<le> length s \<Longrightarrow> length (slice s a b) = b - a"
  by (simp add: slice_def)

lemma nth_slice: "i < b - a \<Longrightarrow> b \<le> length s \<Longrightarrow> slice s a b ! i = s ! (a + i)"
  by (simp add: slice_def)

lemma digits_text_run:
  assumes "isDigit (peek s p)"
  shows "digits_text (slice s p (digit_run s p))"
proof -
  let ?e = "digit_run s p"
  have p: "p < length s"
    using assms by (rule isDigit_peek_less)
  have lt: "p < ?e"
    using assms by (rule digit_run_digit)
  have le: "?e \<le> length s"
    using p by (intro digit_run_le) simp
  have ne: "slice s p ?e \<noteq> []"
    using lt le length_slice [OF le, of p] by auto
  have hd: "hd (slice s p ?e) = s ! p"
    using slice_Cons [OF lt p] by simp
  have "isDigit (int (slice s p ?e ! i)) \<or> int (slice s p ?e ! i) = UNDERSCORE"
    if "i < length (slice s p ?e)" for i
  proof -
    have i: "i < ?e - p"
      using that length_slice [OF le, of p] by simp
    then have "p + i < length s"
      using le by simp
    then have "peek s (p + i) = int (slice s p ?e ! i)"
      using nth_slice [OF i le] by (simp add: peek_nth)
    moreover have "isDigit (peek s (p + i)) \<or> peek s (p + i) = UNDERSCORE"
      using digit_run_chars [of p "p + i" s] i by simp
    ultimately show ?thesis by simp
  qed
  then have "list_all (\<lambda>c. isDigit (int c) \<or> int c = UNDERSCORE) (slice s p ?e)"
    by (simp add: list_all_length)
  then show ?thesis
    using ne hd assms p by (simp add: digits_text_def peek_nth)
qed

lemma fraction_end_shape:
  assumes "pos1 \<le> length s"
  shows "pos1 \<le> fraction_end s pos1 \<and> fraction_end s pos1 \<le> length s
         \<and> fraction_text (slice s pos1 (fraction_end s pos1))"
proof (cases "peek s pos1 = DOT")
  case False
  then show ?thesis
    using assms by (simp add: fraction_end_def slice_empty fraction_text_def)
next
  case True
  then have dot: "pos1 < length s" "s ! pos1 = 46"
    by (simp_all add: peek_numeral)
  show ?thesis
  proof (cases "isDigit (peek s (pos1 + 1))")
    case False
    then show ?thesis
      using True dot by (simp add: fraction_end_def slice_single fraction_text_def)
  next
    case d: True
    let ?e = "digit_run s (pos1 + 1)"
    have e: "fraction_end s pos1 = ?e"
      using True d by (simp add: fraction_end_def)
    have lt: "pos1 + 1 < ?e"
      using d by (rule digit_run_digit)
    have le: "?e \<le> length s"
      using dot by (intro digit_run_le) simp
    have "slice s pos1 ?e = 46 # slice s (Suc pos1) ?e"
      using slice_Cons [of pos1 ?e s] lt dot by simp
    moreover have "digits_text (slice s (Suc pos1) ?e)"
      using digits_text_run [OF d] by simp
    ultimately show ?thesis
      using e lt le by (auto simp: fraction_text_def)
  qed
qed

lemma decimal_unfold:
  assumes "isDigit (peek s p)"
  shows "decimal s p =
           (let pos2 = fraction_end s (digit_run s p); e = peek s pos2 in
            if e = LOWER_E \<or> e = UPPER_E then
              (let pos4 = (if peek s (pos2 + 1) = PLUS \<or> peek s (pos2 + 1) = DASH
                           then pos2 + 2 else pos2 + 1)
               in if \<not> isDigit (peek s pos4) then None
                  else Some (NumberToken, digit_run s pos4))
            else Some (NumberToken, pos2))"
proof -
  note ir = integer_run_start [OF assms, of False]
  show ?thesis
  proof (cases "peek s (digit_run s p) = DOT")
    case False
    then show ?thesis
      by (simp add: decimal_def ir fraction_end_def Let_def)
  next
    case True
    show ?thesis
    proof (cases "isDigit (peek s (digit_run s p + 1))")
      case d: True
      with True show ?thesis
        by (simp add: decimal_def ir fraction_end_def Let_def)
    next
      case d: False
      with True show ?thesis
        by (simp add: decimal_def ir fraction_end_def Let_def)
    qed
  qed
qed

lemma decimal_shape:
  assumes dec: "decimal s p = Some (t, n)" and dig: "isDigit (peek s p)"
  shows "t = NumberToken \<and> p < n \<and> n \<le> length s
         \<and> (\<exists>ip fr ex. slice s p n = ip @ fr @ ex
               \<and> digits_text ip \<and> fraction_text fr \<and> exponent_text ex)"
proof -
  let ?p1 = "digit_run s p"
  let ?p2 = "fraction_end s ?p1"
  have p: "p < length s"
    using dig by (rule isDigit_peek_less)
  have p1: "p < ?p1" "?p1 \<le> length s"
    using dig p by (simp_all add: digit_run_digit digit_run_le)
  have ip: "digits_text (slice s p ?p1)"
    using dig by (rule digits_text_run)
  have p2: "?p1 \<le> ?p2" "?p2 \<le> length s" and fr: "fraction_text (slice s ?p1 ?p2)"
    using fraction_end_shape [OF p1(2)] by simp_all
  have front: "slice s p ?p2 = slice s p ?p1 @ slice s ?p1 ?p2"
    using slice_append [of p ?p1 ?p2 s] p1 p2 by simp
  show ?thesis
  proof (cases "peek s ?p2 = LOWER_E \<or> peek s ?p2 = UPPER_E")
    case False
    then have "decimal s p = Some (NumberToken, ?p2)"
      by (simp add: decimal_unfold [OF dig] Let_def)
    with dec have tn: "t = NumberToken" "n = ?p2" by simp_all
    have "slice s p n = slice s p ?p1 @ slice s ?p1 ?p2 @ []"
      using front tn by simp
    moreover have "exponent_text []"
      by (simp add: exponent_text_def)
    ultimately show ?thesis
      using tn p1 p2 ip fr by (intro conjI exI [of _ "slice s p ?p1"] exI [of _ "slice s ?p1 ?p2"]
          exI [of _ "[]"]) simp_all
  next
    case e: True
    then have e2: "?p2 < length s" "s ! ?p2 = 101 \<or> s ! ?p2 = 69"
      by (auto simp: peek_numeral)
    let ?p4 = "if peek s (?p2 + 1) = PLUS \<or> peek s (?p2 + 1) = DASH then ?p2 + 2 else ?p2 + 1"
    have unf: "decimal s p =
                 (if \<not> isDigit (peek s ?p4) then None else Some (NumberToken, digit_run s ?p4))"
      using e by (simp add: decimal_unfold [OF dig] Let_def)
    have d4: "isDigit (peek s ?p4)"
      using dec unf by (auto split: if_splits)
    then have tn: "t = NumberToken" "n = digit_run s ?p4"
      using dec unf by (auto split: if_splits)
    have p4: "?p4 < length s"
      using d4 by (rule isDigit_peek_less)
    have n: "?p4 < n" "n \<le> length s"
      using d4 p4 tn by (simp_all add: digit_run_digit digit_run_le)
    have ed: "digits_text (slice s ?p4 n)"
      using digits_text_run [OF d4] tn by simp
    have sg: "sign_text (slice s (Suc ?p2) ?p4)"
    proof (cases "peek s (?p2 + 1) = PLUS \<or> peek s (?p2 + 1) = DASH")
      case True
      then have "Suc ?p2 < length s" "s ! Suc ?p2 = 43 \<or> s ! Suc ?p2 = 45"
        by (auto simp: peek_numeral)
      then show ?thesis
        using True slice_single [of "Suc ?p2" s] by (auto simp: sign_text_def)
    next
      case False
      then show ?thesis
        by (simp add: slice_empty sign_text_def)
    qed
    have le4: "Suc ?p2 \<le> ?p4"
      by simp
    have "slice s ?p2 n = s ! ?p2 # slice s (Suc ?p2) n"
      using slice_Cons [of ?p2 n s] n e2(1) le4 by linarith
    also have "slice s (Suc ?p2) n = slice s (Suc ?p2) ?p4 @ slice s ?p4 n"
      using slice_append [of "Suc ?p2" ?p4 n s] le4 n(1) by simp
    finally have ex: "slice s ?p2 n = s ! ?p2 # slice s (Suc ?p2) ?p4 @ slice s ?p4 n" .
    have et: "exponent_text (slice s ?p2 n)"
      unfolding exponent_text_def using ex e2(2) sg ed by blast
    have "?p2 \<le> n"
      using le4 n(1) by linarith
    then have "slice s p n = slice s p ?p1 @ slice s ?p1 ?p2 @ slice s ?p2 n"
      using slice_append [of p ?p2 n s] front p1 p2 by simp
    moreover have "p < n"
      using p1 p2 \<open>?p2 \<le> n\<close> by linarith
    ultimately show ?thesis
      using tn(1) n(2) ip fr et by blast
  qed
qed

lemma numberToken_decimal:
  assumes "\<not> based_prefix s"
  shows "numberToken s =
           (let pos = (if peek s 0 = PLUS \<or> peek s 0 = DASH then 1 else 0) in
            if \<not> isDigit (peek s pos) then None else decimal s pos)"
  using assms by (auto simp: numberToken_def based_prefix_def Let_def)

lemma numberToken_decimal_shape:
  assumes acc: "numberToken s = Some (t, n)" and nb: "\<not> based_prefix s"
  shows "t = NumberToken \<and> n \<le> length s \<and> decimal_text (take n s)"
proof -
  let ?pos = "if peek s 0 = PLUS \<or> peek s 0 = DASH then 1 else 0 :: nat"
  have dig: "isDigit (peek s ?pos)" and dec: "decimal s ?pos = Some (t, n)"
    using acc numberToken_decimal [OF nb] by (auto simp: Let_def split: if_splits)
  from decimal_shape [OF dec dig] obtain ip fr ex
    where t: "t = NumberToken" and n: "?pos < n" "n \<le> length s"
      and sl: "slice s ?pos n = ip @ fr @ ex"
      and parts: "digits_text ip" "fraction_text fr" "exponent_text ex"
    by blast
  have sg: "sign_text (slice s 0 ?pos)"
  proof (cases "peek s 0 = PLUS \<or> peek s 0 = DASH")
    case True
    then have "0 < length s" "s ! 0 = 43 \<or> s ! 0 = 45"
      by (auto simp: peek_numeral)
    then show ?thesis
      using True slice_single [of 0 s] by (auto simp: sign_text_def)
  next
    case False
    then show ?thesis
      by (simp add: slice_empty sign_text_def)
  qed
  have "take n s = slice s 0 ?pos @ slice s ?pos n"
    using slice_append [of 0 ?pos n s] n(1) by (simp add: slice_take)
  then have "take n s = slice s 0 ?pos @ ip @ fr @ ex"
    using sl by simp
  then have "decimal_text (take n s)"
    unfolding decimal_text_def using sg parts by blast
  with t n show ?thesis by simp
qed

lemma numberToken_no_digit:
  assumes "\<not> isDigit (peek s (if peek s 0 = PLUS \<or> peek s 0 = DASH then 1 else 0))"
  shows "numberToken s = None"
  using assms by (simp add: numberToken_def Let_def)

lemma numberToken_bare:
  assumes "sign_text sg"
  shows "numberToken sg = None \<and> numberToken (sg @ 46 # rest) = None"
proof -
  consider "sg = []" | "sg = [43]" | "sg = [45]"
    using assms by (auto simp: sign_text_def)
  then show ?thesis
  proof cases
    case 1
    then show ?thesis
      by (auto intro!: numberToken_no_digit simp: peek_def isDigit_def)
  next
    case 2
    then show ?thesis
      by (auto intro!: numberToken_no_digit simp: peek_def isDigit_def)
  next
    case 3
    then show ?thesis
      by (auto intro!: numberToken_no_digit simp: peek_def isDigit_def)
  qed
qed

text \<open>
  C5, as stated, fails: on \<open>1.\<close> the tokenizer accepts a Number of two code units, so the
  dot, which no fractional digit follows, is part of the accepted span.
\<close>

theorem numberToken_trailing_dot_counterexample:
  "numberToken (codes ''1.'') = Some (NumberToken, 2)"
  by code_simp

text \<open>
  C5, amended: in decimal mode, the span of an accepted token is an optional sign, an
  integer digit run (a digit, then digits and underscores), then optionally a dot, which
  fractional digits may follow (a digit, then digits and underscores), then optionally an
  exponent (e or E, an optional sign, a digit, then digits and underscores); so an accepted
  token holds a digit, and a sign or a dot with no digit before it is never accepted.
\<close>

theorem numberToken_decimal_span:
  assumes "numberToken s = Some (t, n)" and "\<not> based_prefix s"
  shows "t = NumberToken \<and> n \<le> length s \<and> decimal_text (take n s)
         \<and> (sign_text sg \<longrightarrow> numberToken sg = None \<and> numberToken (sg @ 46 # rest) = None)"
  using numberToken_decimal_shape [OF assms] numberToken_bare [of sg rest] by simp

theorem numberToken_decimal_span_witness:
  "numberToken (codes ''-1_0.5e+3 '') = Some (NumberToken, 9)
   \<and> decimal_text (take 9 (codes ''-1_0.5e+3 ''))
   \<and> numberToken [43] = None \<and> numberToken ([43] @ 46 # [53]) = None"
proof -
  have a: "numberToken (codes ''-1_0.5e+3 '') = Some (NumberToken, 9)"
    by code_simp
  have b: "\<not> based_prefix (codes ''-1_0.5e+3 '')"
    by code_simp
  show ?thesis
    using numberToken_decimal_span [OF a b, of "[43]" "[53]"] a
    by (simp add: sign_text_def)
qed

section \<open>The string scanner\<close>

lemma isHex_inline: "isHex c \<Longrightarrow> inline c"
  by (auto simp: isHex_def isDigit_def inline_def)

lemma hex4:
  "list_all (\<lambda>i. isHex (peek s (q + i))) [0, 1, 2, 3] \<longleftrightarrow> (\<forall>j<4. isHex (peek s (q + j)))"
proof -
  have "set [0, 1, 2, 3 :: nat] = {..<4}"
    by auto
  then show ?thesis
    by (simp only: list_all_iff) auto
qed

lemma string_loop_SomeE:
  assumes "string_loop s p = Some r"
  obtains (accept) "peek s p = QUOTE" "peek s (p - 1) \<noteq> BACKSLASH" "r = p + 1"
  | (char) "inline (peek s p)" "peek s p \<noteq> BACKSLASH" "string_loop s (p + 1) = Some r"
  | (simple) "peek s p = BACKSLASH" "peek s (p + 1) \<in> set simple_escapes"
      "string_loop s (p + 2) = Some r"
  | (unicode) "peek s p = BACKSLASH" "peek s (p + 1) = LOWER_U"
      "\<forall>j<4. isHex (peek s (p + 2 + j))" "string_loop s (p + 6) = Some r"
proof -
  note unf = assms [unfolded string_loop.simps [of s p] Let_def]
  show thesis
  proof (cases "peek s p = - 1")
    case True
    from unf [unfolded Eq_TrueI [OF True] if_True] show thesis by simp
  next
    case n1: False
    note unf1 = unf [unfolded Eq_FalseI [OF n1] if_False]
    show thesis
    proof (cases "peek s p = NEWLINE \<or> peek s p = CR")
      case True
      from unf1 [unfolded Eq_TrueI [OF True] if_True] show thesis by simp
    next
      case n2: False
      note unf2 = unf1 [unfolded Eq_FalseI [OF n2] if_False]
      have i: "inline (peek s p)"
        using n1 n2 by (simp add: inline_def)
      show thesis
      proof (cases "peek s p = QUOTE \<and> peek s (p - 1) \<noteq> BACKSLASH")
        case True
        from unf2 [unfolded Eq_TrueI [OF True] if_True] have "r = p + 1" by simp
        with True show thesis
          by (intro accept) simp_all
      next
        case nq: False
        note unf3 = unf2 [unfolded Eq_FalseI [OF nq] if_False]
        show thesis
        proof (cases "peek s p = BACKSLASH")
          case False
          from unf3 [unfolded Eq_FalseI [OF False] if_False] i False show thesis
            by (intro char)
        next
          case bs: True
          note unf4 = unf3 [unfolded Eq_TrueI [OF bs] if_True]
          show thesis
          proof (cases "peek s (p + 1) = - 1")
            case True
            from unf4 [unfolded Eq_TrueI [OF True] if_True] show thesis by simp
          next
            case e1: False
            note unf5 = unf4 [unfolded Eq_FalseI [OF e1] if_False]
            show thesis
            proof (cases "peek s (p + 1) = LOWER_U")
              case True
              note unf6 = unf5 [unfolded Eq_TrueI [OF True] if_True]
              show thesis
              proof (cases "list_all (\<lambda>i. isHex (peek s (p + 2 + i))) [0, 1, 2, 3]")
                case h: True
                from unf6 [unfolded Eq_TrueI [OF h] if_True] h bs True show thesis
                  by (intro unicode) (simp_all only: hex4)
              next
                case False
                from unf6 [unfolded Eq_FalseI [OF False] if_False] show thesis by simp
              qed
            next
              case nu: False
              note unf6 = unf5 [unfolded Eq_FalseI [OF nu] if_False]
              show thesis
              proof (cases "peek s (p + 1) \<in> set simple_escapes")
                case True
                from unf6 [unfolded Eq_TrueI [OF True] if_True] bs True show thesis
                  by (intro simple)
              next
                case False
                from unf6 [unfolded Eq_FalseI [OF False] if_False] show thesis by simp
              qed
            qed
          qed
        qed
      qed
    qed
  qed
qed

lemma string_loop_result:
  "string_loop s p = Some r \<Longrightarrow>
     p < r \<and> peek s (r - 1) = QUOTE \<and> (\<forall>i. p \<le> i \<and> i < r \<longrightarrow> inline (peek s i))"
proof (induction "length s - p" arbitrary: p rule: less_induct)
  case less
  from less.prems show ?case
  proof (cases rule: string_loop_SomeE)
    case accept
    then show ?thesis
      by (auto simp: inline_def le_less_Suc_eq)
  next
    case char
    then have "p < length s"
      by (auto simp: inline_def peek_def split: if_splits)
    then have ih: "p + 1 < r \<and> peek s (r - 1) = QUOTE
                   \<and> (\<forall>i. p + 1 \<le> i \<and> i < r \<longrightarrow> inline (peek s i))"
      using less.hyps [of "p + 1"] char(3) by simp
    have "inline (peek s i)" if "p \<le> i" "i < r" for i
    proof (cases "i = p")
      case True
      with char(1) show ?thesis by simp
    next
      case False
      with that ih show ?thesis by simp
    qed
    with ih show ?thesis by simp
  next
    case simple
    then have "p < length s"
      by (auto simp: peek_def split: if_splits)
    then have ih: "p + 2 < r \<and> peek s (r - 1) = QUOTE
                   \<and> (\<forall>i. p + 2 \<le> i \<and> i < r \<longrightarrow> inline (peek s i))"
      using less.hyps [of "p + 2"] simple(3) by simp
    have e: "inline (peek s (p + 1))"
      using simple(2) by (auto simp: inline_def simple_escapes_def)
    have "inline (peek s i)" if "p \<le> i" "i < r" for i
    proof -
      have "i = p \<or> i = p + 1 \<or> p + 2 \<le> i"
        using that by linarith
      then show ?thesis
        using simple(1) e ih that by (auto simp: inline_def)
    qed
    with ih show ?thesis by simp
  next
    case unicode
    then have "p < length s"
      by (auto simp: peek_def split: if_splits)
    then have ih: "p + 6 < r \<and> peek s (r - 1) = QUOTE
                   \<and> (\<forall>i. p + 6 \<le> i \<and> i < r \<longrightarrow> inline (peek s i))"
      using less.hyps [of "p + 6"] unicode(4) by simp
    have "inline (peek s i)" if "p \<le> i" "i < r" for i
    proof -
      have "i = p \<or> i = p + 1 \<or> (p + 2 \<le> i \<and> i < p + 6) \<or> p + 6 \<le> i"
        using that by linarith
      then consider "i = p" | "i = p + 1" | "p + 2 \<le> i" "i < p + 6" | "p + 6 \<le> i"
        by blast
      then show ?thesis
      proof cases
        case 1
        with unicode(1) show ?thesis by (simp add: inline_def)
      next
        case 2
        with unicode(2) show ?thesis by (simp add: inline_def)
      next
        case 3
        then have "i - (p + 2) < 4" "p + 2 + (i - (p + 2)) = i"
          by simp_all
        then have "isHex (peek s i)"
          using unicode(3) by metis
        then show ?thesis by (rule isHex_inline)
      next
        case 4
        with ih that show ?thesis by simp
      qed
    qed
    with ih show ?thesis by simp
  qed
qed

lemma string_loop_le: "string_loop s p = Some r \<Longrightarrow> r \<le> length s"
proof -
  assume "string_loop s p = Some r"
  then have "p < r" "peek s (r - 1) = QUOTE"
    using string_loop_result by blast+
  then show ?thesis
    by (auto simp: peek_def split: if_splits)
qed

lemma simple_escapes_inline:
  "x \<in> set simple_escapes \<Longrightarrow> x \<noteq> - 1 \<and> x \<noteq> LOWER_U"
  by (auto simp: simple_escapes_def)

lemma string_loop_end:
  "peek s p = - 1 \<or> peek s p = NEWLINE \<or> peek s p = CR \<Longrightarrow> string_loop s p = None"
  by (subst string_loop.simps) (auto simp: Let_def)

lemma string_loop_close:
  "peek s p = QUOTE \<Longrightarrow> peek s (p - 1) \<noteq> BACKSLASH \<Longrightarrow> string_loop s p = Some (p + 1)"
  by (subst string_loop.simps) (simp add: Let_def)

lemma string_loop_skip_quote:
  "peek s p = QUOTE \<Longrightarrow> peek s (p - 1) = BACKSLASH \<Longrightarrow> string_loop s p = string_loop s (p + 1)"
  by (subst string_loop.simps) (simp add: Let_def)

lemma string_loop_simple:
  "peek s p = BACKSLASH \<Longrightarrow> peek s (p + 1) \<in> set simple_escapes
     \<Longrightarrow> string_loop s p = string_loop s (p + 2)"
  using simple_escapes_inline [of "peek s (p + 1)"]
  by (subst string_loop.simps) (simp add: Let_def)

lemma string_loop_bad_escape:
  "peek s p = BACKSLASH \<Longrightarrow> peek s (p + 1) \<notin> set simple_escapes \<Longrightarrow> peek s (p + 1) \<noteq> LOWER_U
     \<Longrightarrow> string_loop s p = None"
  by (subst string_loop.simps) (simp add: Let_def)

lemma string_loop_bad_unicode:
  assumes "peek s p = BACKSLASH" and "peek s (p + 1) = LOWER_U"
    and "j < 4" and "\<not> isHex (peek s (p + 2 + j))"
  shows "string_loop s p = None"
proof -
  have "\<not> list_all (\<lambda>i. isHex (peek s (p + 2 + i))) [0, 1, 2, 3]"
    using assms(3,4) by (simp only: hex4) blast
  then show ?thesis
    using assms(1,2) by (subst string_loop.simps) (simp add: Let_def del: list.pred_inject)
qed

lemma string_loop_not_here:
  "string_loop s (p + 1) \<noteq> Some (p + 1)"
  using string_loop_result [of s "p + 1" "p + 1"] by auto

lemma stringToken_loop:
  "stringToken (34 # r) = map_option (Pair StringToken) (string_loop (34 # r) 1)"
  by (simp add: stringToken_def peek_Cons0)

lemma peek_after_text: "peek (34 # body @ r) (Suc (length body) + k) = peek r k"
  using peek_shift [of "34 # body" r k] by simp

lemma stringToken_accepted:
  assumes "stringToken s = Some (t, n)"
  shows "t = StringToken \<and> 2 \<le> n \<and> n \<le> length s \<and> s ! 0 = 34 \<and> s ! (n - 1) = 34
         \<and> list_all (\<lambda>c. c \<noteq> 10 \<and> c \<noteq> 13) (take n s)"
proof -
  have q: "peek s 0 = QUOTE" and t: "t = StringToken" and loop: "string_loop s 1 = Some n"
    using assms by (auto simp: stringToken_def split: if_splits)
  have n: "1 < n" and last: "peek s (n - 1) = QUOTE"
    and inl: "\<forall>i. 1 \<le> i \<and> i < n \<longrightarrow> inline (peek s i)"
    using string_loop_result [OF loop] by simp_all
  have le: "n \<le> length s"
    using loop by (rule string_loop_le)
  have "s ! i \<noteq> 10 \<and> s ! i \<noteq> 13" if "i < n" for i
  proof (cases "i = 0")
    case True
    with q show ?thesis by (simp add: peek_numeral)
  next
    case False
    then have "inline (peek s i)"
      using inl that by simp
    moreover have "peek s i = int (s ! i)"
      using that le by (simp add: peek_nth)
    ultimately show ?thesis
      by (auto simp: inline_def)
  qed
  then have "list_all (\<lambda>c. c \<noteq> 10 \<and> c \<noteq> 13) (take n s)"
    using le by (simp add: list_all_length)
  then show ?thesis
    using t n le q last by (simp add: peek_numeral)
qed

lemma stringToken_unterminated:
  assumes "34 \<notin> set body"
  shows "stringToken (34 # body) = None"
proof (rule ccontr)
  assume "stringToken (34 # body) \<noteq> None"
  then obtain t n where "stringToken (34 # body) = Some (t, n)"
    by auto
  from stringToken_accepted [OF this]
  have n: "2 \<le> n" "n \<le> Suc (length body)" and q: "(34 # body) ! (n - 1) = 34"
    by simp_all
  define m where "m = n - 2"
  have m: "n = Suc (Suc m)"
    using n(1) by (simp add: m_def)
  have "body ! m = 34" "m < length body"
    using q n(2) unfolding m by simp_all
  then show False
    using assms nth_mem [of m body] by simp
qed

lemma stringToken_line_end:
  assumes "34 \<notin> set body" and "nl = 10 \<or> nl = 13"
  shows "stringToken (34 # body @ nl # rest) = None"
proof (rule ccontr)
  let ?s = "34 # body @ nl # rest"
  assume "stringToken ?s \<noteq> None"
  then obtain t n where "stringToken ?s = Some (t, n)"
    by auto
  from stringToken_accepted [OF this]
  have n: "2 \<le> n" "n \<le> length ?s" and q: "?s ! (n - 1) = 34"
    and all: "list_all (\<lambda>c. c \<noteq> 10 \<and> c \<noteq> 13) (take n ?s)"
    by simp_all
  define m where "m = n - 2"
  have m: "n = Suc (Suc m)"
    using n(1) by (simp add: m_def)
  have qm: "(body @ nl # rest) ! m = 34"
    using q unfolding m by simp
  have all': "\<forall>i<n. ?s ! i \<noteq> 10 \<and> ?s ! i \<noteq> 13"
    using all n(2) by (simp add: list_all_length)
  show False
  proof (cases "m < length body")
    case True
    then have "body ! m = 34"
      using qm by (simp add: nth_append)
    then show False
      using assms(1) nth_mem [OF True] by simp
  next
    case False
    then have "Suc (length body) < n"
      unfolding m by simp
    then have "?s ! Suc (length body) \<noteq> 10 \<and> ?s ! Suc (length body) \<noteq> 13"
      using all' by blast
    then show False
      using assms(2) by (simp add: nth_append)
  qed
qed

lemma string_loop_char:
  assumes "inline (peek s p)" and "peek s p \<noteq> QUOTE" and "peek s p \<noteq> BACKSLASH"
  shows "string_loop s p = string_loop s (p + 1)"
  using assms by (subst string_loop.simps) (simp add: Let_def inline_def)

lemma string_loop_unicode:
  assumes "peek s p = BACKSLASH" and "peek s (p + 1) = LOWER_U"
    and "\<forall>j<4. isHex (peek s (p + 2 + j))"
  shows "string_loop s p = string_loop s (p + 6)"
proof -
  have "list_all (\<lambda>i. isHex (peek s (p + 2 + i))) [0, 1, 2, 3]"
    using assms(3) by (simp only: hex4)
  then show ?thesis
    using assms(1,2) by (subst string_loop.simps) (simp add: Let_def del: list.pred_inject)
qed

lemma string_body_text: "list_all text_char body \<Longrightarrow> string_body body"
  by (induction body) (auto simp: text_char_def)

lemma string_loop_body:
  "string_body body \<Longrightarrow>
     string_loop (pre @ body @ r) (length pre)
       = string_loop (pre @ body @ r) (length pre + length body)"
proof (induction "length body" arbitrary: body pre rule: less_induct)
  case less
  show ?case
  proof (cases body)
    case Nil
    then show ?thesis by simp
  next
    case (Cons c cs)
    let ?s = "pre @ body @ r"
    show ?thesis
    proof (cases "c = 92")
      case False
      then have c: "text_char c" and cs: "string_body cs"
        using less.prems Cons by simp_all
      have pk: "peek ?s (length pre) = int c"
        using Cons by (simp add: peek_shift0 peek_Cons0)
      have "string_loop ?s (length pre) = string_loop ?s (length pre + 1)"
        using c False by (intro string_loop_char) (auto simp: pk inline_def text_char_def)
      moreover have "string_loop ((pre @ [c]) @ cs @ r) (length (pre @ [c]))
                       = string_loop ((pre @ [c]) @ cs @ r) (length (pre @ [c]) + length cs)"
        using cs Cons by (intro less.hyps) simp_all
      ultimately show ?thesis
        using Cons by simp
    next
      case True
      then obtain e es where es: "cs = e # es"
        using less.prems Cons by (cases cs) simp_all
      have s: "?s = pre @ 92 # e # es @ r"
        using Cons True es by simp
      have pk: "peek ?s (length pre) = BACKSLASH" "peek ?s (length pre + 1) = int e"
        using peek_shift [of pre "92 # e # es @ r" 0] peek_shift [of pre "92 # e # es @ r" 1]
        unfolding s by (simp_all add: peek_def)
      show ?thesis
      proof (cases "e = 117")
        case False
        then have e: "int e \<in> set simple_escapes" and b: "string_body es"
          using less.prems Cons True es by simp_all
        have "string_loop ?s (length pre) = string_loop ?s (length pre + 2)"
          using pk e by (intro string_loop_simple) simp_all
        moreover have "string_loop ((pre @ [92, e]) @ es @ r) (length (pre @ [92, e]))
                         = string_loop ((pre @ [92, e]) @ es @ r)
                             (length (pre @ [92, e]) + length es)"
          using b Cons es by (intro less.hyps) simp_all
        ultimately show ?thesis
          using Cons es True by (simp add: s)
      next
        case u: True
        then have len: "4 \<le> length es" and hex: "list_all (\<lambda>h. isHex (int h)) (take 4 es)"
          and b: "string_body (drop 4 es)"
          using less.prems Cons True es by simp_all
        have "isHex (peek ?s (length pre + 2 + j))" if "j < 4" for j
        proof -
          have "peek ?s (length pre + (2 + j)) = peek (es @ r) j"
            using peek_shift [of "pre @ [92, e]" "es @ r" j] unfolding s
            by (simp add: ac_simps)
          also have "\<dots> = int (es ! j)"
            using that len by (simp add: peek_def nth_append)
          also have "es ! j = take 4 es ! j"
            using that by simp
          finally show ?thesis
            using hex that len by (simp add: list_all_length add.assoc)
        qed
        then have step: "string_loop ?s (length pre) = string_loop ?s (length pre + 6)"
          using pk u by (intro string_loop_unicode) simp_all
        let ?pre' = "pre @ 92 # e # take 4 es"
        have s': "?pre' @ drop 4 es @ r = ?s"
          unfolding s by simp
        have l': "length ?pre' = length pre + 6"
          using len by simp
        have "string_loop (?pre' @ drop 4 es @ r) (length ?pre')
                = string_loop (?pre' @ drop 4 es @ r) (length ?pre' + length (drop 4 es))"
          using b Cons es by (intro less.hyps) simp_all
        then have ih: "string_loop ?s (length pre + 6)
                         = string_loop ?s (length pre + 6 + length (drop 4 es))"
          by (simp only: s' l')
        have tot: "length pre + 6 + length (drop 4 es) = length pre + length body"
          using len Cons es by simp
        show ?thesis
          using step ih by (simp only: tot)
      qed
    qed
  qed
qed

lemma stringToken_body:
  assumes "string_body body"
  shows "stringToken (34 # body @ r)
           = map_option (Pair StringToken) (string_loop (34 # body @ r) (Suc (length body)))"
  using string_loop_body [OF assms, of "[34]" r] by (simp add: stringToken_loop)

lemma string_loop_escaped_backslash:
  assumes "peek s p = BACKSLASH" and "peek s (p + 1) = BACKSLASH" and "peek s (p + 2) = QUOTE"
  shows "string_loop s p = string_loop s (p + 3)" and "string_loop s p \<noteq> Some (p + 3)"
proof -
  have "string_loop s p = string_loop s (p + 2)"
    using assms(1,2) by (intro string_loop_simple) (simp_all add: simple_escapes_def)
  also have "\<dots> = string_loop s (p + 2 + 1)"
    using assms(2,3) by (intro string_loop_skip_quote) simp_all
  finally show a: "string_loop s p = string_loop s (p + 3)"
    by (simp add: numeral_3_eq_3)
  show "string_loop s p \<noteq> Some (p + 3)"
    using string_loop_not_here [of s "p + 2"] a by (simp add: numeral_3_eq_3)
qed

lemma stringToken_escaped_backslash:
  assumes "string_body body"
  shows "stringToken (34 # body @ [92, 92, 34] @ rest) \<noteq> Some (StringToken, length body + 4)"
    and "rest = [] \<or> hd rest = 10 \<or> hd rest = 13
           \<Longrightarrow> stringToken (34 # body @ [92, 92, 34] @ rest) = None"
proof -
  let ?r = "[92, 92, 34] @ rest"
  let ?s = "34 # body @ ?r"
  let ?p = "Suc (length body)"
  have pk: "peek ?s ?p = BACKSLASH" "peek ?s (?p + 1) = BACKSLASH" "peek ?s (?p + 2) = QUOTE"
    "peek ?s (?p + 3) = peek rest 0"
    using peek_after_text [of body ?r 0] peek_after_text [of body ?r 1]
      peek_after_text [of body ?r 2] peek_after_text [of body ?r 3]
    by (simp_all add: peek_def)
  have tok: "stringToken ?s = map_option (Pair StringToken) (string_loop ?s ?p)"
    by (rule stringToken_body [OF assms])
  have eq: "string_loop ?s ?p = string_loop ?s (?p + 3)"
    and ne: "string_loop ?s ?p \<noteq> Some (?p + 3)"
    using string_loop_escaped_backslash [OF pk(1,2,3)] by simp_all
  show "stringToken ?s \<noteq> Some (StringToken, length body + 4)"
    using tok ne by auto
  show "stringToken ?s = None" if "rest = [] \<or> hd rest = 10 \<or> hd rest = 13"
  proof -
    have "peek rest 0 = - 1 \<or> peek rest 0 = NEWLINE \<or> peek rest 0 = CR"
      using that by (cases rest) (auto simp: peek_def)
    then have "string_loop ?s (?p + 3) = None"
      using pk(4) by (intro string_loop_end) simp
    with tok eq show ?thesis by simp
  qed
qed

text \<open>
  C7: at a quote met by the loop, the token is closed exactly when the code unit before the
  quote is no backslash; so after an escaped backslash the quote does not close the token:
  the loop goes on behind it, the token never ends at that quote, and nothing is accepted
  when a line terminator or the end of input follows.
\<close>

theorem stringToken_quote_after_backslash:
  "(1 \<le> p \<and> peek s p = QUOTE \<longrightarrow>
      (string_loop s p = Some (p + 1)) = (peek s (p - 1) \<noteq> BACKSLASH))
   \<and> (peek s p = BACKSLASH \<and> peek s (p + 1) = BACKSLASH \<and> peek s (p + 2) = QUOTE \<longrightarrow>
        string_loop s p = string_loop s (p + 3) \<and> string_loop s p \<noteq> Some (p + 3))
   \<and> (string_body body \<longrightarrow>
        stringToken (34 # body @ [92, 92, 34] @ rest) \<noteq> Some (StringToken, length body + 4)
        \<and> (rest = [] \<or> hd rest = 10 \<or> hd rest = 13 \<longrightarrow>
             stringToken (34 # body @ [92, 92, 34] @ rest) = None))"
proof -
  have a: "(string_loop s p = Some (p + 1)) = (peek s (p - 1) \<noteq> BACKSLASH)"
    if "peek s p = QUOTE"
  proof (cases "peek s (p - 1) = BACKSLASH")
    case True
    then show ?thesis
      using string_loop_skip_quote [OF that True] string_loop_not_here [of s p] by simp
  next
    case False
    then show ?thesis
      using string_loop_close [OF that False] by simp
  qed
  from a string_loop_escaped_backslash [of s p] stringToken_escaped_backslash [of body rest]
  show ?thesis by simp
qed

theorem stringToken_quote_after_backslash_witness:
  "(string_loop [34, 97, 92, 92, 34, 10] 4 = Some (4 + 1))
     = (peek [34, 97, 92, 92, 34, 10] (4 - 1) \<noteq> BACKSLASH)
   \<and> string_loop [34, 97, 92, 92, 34, 10] 2 = string_loop [34, 97, 92, 92, 34, 10] (2 + 3)
   \<and> stringToken (34 # [97] @ [92, 92, 34] @ [10]) = None
   \<and> stringToken (34 # [97, 92, 110] @ [92, 92, 34] @ [10]) = None"
  using stringToken_quote_after_backslash [of 4 "[34, 97, 92, 92, 34, 10]" "[97]" "[10]"]
    stringToken_quote_after_backslash [of 2 "[34, 97, 92, 92, 34, 10]" "[97]" "[10]"]
    stringToken_quote_after_backslash [of 2 "[34, 97, 92, 92, 34, 10]" "[97, 92, 110]" "[10]"]
  by (simp add: peek_def text_char_def simple_escapes_def)

text \<open>
  C8: the loop returns without a token at a line terminator and at the end of input, at a
  backslash followed by a code unit that is neither a simple escape nor \<open>u\<close>, and at
  \<open>\u\<close> when one of the four code units behind it is no hexadecimal digit; since the
  loop only moves forward to such a position, the whole token is then declined. An accepted
  token starts and ends with a quote and holds no line terminator, so a text without a
  second quote, or with a line terminator before it, yields no token.
\<close>

theorem stringToken_declines:
  "(peek s p = - 1 \<or> peek s p = NEWLINE \<or> peek s p = CR \<longrightarrow> string_loop s p = None)
   \<and> (peek s p = BACKSLASH \<and> peek s (p + 1) \<notin> set simple_escapes \<and> peek s (p + 1) \<noteq> LOWER_U
        \<longrightarrow> string_loop s p = None)
   \<and> (peek s p = BACKSLASH \<and> peek s (p + 1) = LOWER_U \<and> j < 4 \<and> \<not> isHex (peek s (p + 2 + j))
        \<longrightarrow> string_loop s p = None)
   \<and> (stringToken s = Some (t, n) \<longrightarrow>
        t = StringToken \<and> 2 \<le> n \<and> n \<le> length s \<and> s ! 0 = 34 \<and> s ! (n - 1) = 34
        \<and> list_all (\<lambda>c. c \<noteq> 10 \<and> c \<noteq> 13) (take n s))
   \<and> (34 \<notin> set body \<longrightarrow> stringToken (34 # body) = None)
   \<and> (34 \<notin> set body \<and> (nl = 10 \<or> nl = 13) \<longrightarrow> stringToken (34 # body @ nl # rest) = None)
   \<and> (string_body body \<and> int e \<notin> set simple_escapes \<and> e \<noteq> 117 \<longrightarrow>
        stringToken (34 # body @ 92 # e # rest) = None)
   \<and> (string_body body \<and> j < 4 \<and> \<not> isHex (peek rest j) \<longrightarrow>
        stringToken (34 # body @ 92 # 117 # rest) = None)"
proof -
  have esc: "stringToken (34 # body @ 92 # e # rest) = None"
    if "string_body body" "int e \<notin> set simple_escapes" "e \<noteq> 117"
  proof -
    let ?s = "34 # body @ 92 # e # rest"
    have "peek ?s (Suc (length body)) = BACKSLASH" "peek ?s (Suc (length body) + 1) = int e"
      using peek_after_text [of body "92 # e # rest" 0] peek_after_text [of body "92 # e # rest" 1]
      by (simp_all add: peek_def)
    then have "string_loop ?s (Suc (length body)) = None"
      using that(2,3) by (intro string_loop_bad_escape) simp_all
    then show ?thesis
      using stringToken_body [OF that(1), of "92 # e # rest"] by simp
  qed
  have uni: "stringToken (34 # body @ 92 # 117 # rest) = None"
    if "string_body body" "j < 4" "\<not> isHex (peek rest j)"
  proof -
    let ?r = "92 # 117 # rest"
    let ?s = "34 # body @ ?r"
    have "peek ?r (2 + j) = peek rest j"
      using peek_shift [of "[92, 117]" rest j] by simp
    then have "peek ?s (Suc (length body)) = BACKSLASH" "peek ?s (Suc (length body) + 1) = LOWER_U"
      "peek ?s (Suc (length body) + 2 + j) = peek rest j"
      using peek_after_text [of body ?r 0] peek_after_text [of body ?r 1]
        peek_after_text [of body ?r "2 + j"]
      by (simp_all add: peek_def add.assoc)
    then have "string_loop ?s (Suc (length body)) = None"
      using that(2,3) by (intro string_loop_bad_unicode [where j = j]) simp_all
    then show ?thesis
      using stringToken_body [OF that(1), of ?r] by simp
  qed
  from string_loop_end [of s p] string_loop_bad_escape [of s p]
    string_loop_bad_unicode [of s p j] stringToken_accepted [of s t n]
    stringToken_unterminated [of body] stringToken_line_end [of body nl rest] esc uni
  show ?thesis by simp
qed

theorem stringToken_declines_witness:
  "string_loop [34, 97] 2 = None
   \<and> string_loop [34, 97, 10, 34] 2 = None
   \<and> string_loop [34, 92, 120, 34] 1 = None
   \<and> string_loop [34, 92, 117, 48, 49, 103, 50, 34] 1 = None
   \<and> stringToken (codes ''q'') = None
   \<and> stringToken (34 # [97, 98]) = None
   \<and> stringToken (34 # [97, 98] @ 10 # [34]) = None
   \<and> stringToken (34 # [97] @ 92 # 120 # [34]) = None
   \<and> stringToken (34 # [97] @ 92 # 117 # [48, 49, 103, 50, 34]) = None"
proof -
  have q: "stringToken (codes ''q'') = None"
    by code_simp
  show ?thesis
    using stringToken_declines [where s = "[34, 97]" and p = 2 and j = 0 and t = StringToken
        and n = 0 and body = "[97, 98]" and nl = 10 and rest = "[34]" and e = 120]
      stringToken_declines [where s = "[34, 97, 10, 34]" and p = 2 and j = 0 and t = StringToken
        and n = 0 and body = "[97, 98]" and nl = 10 and rest = "[34]" and e = 120]
      stringToken_declines [where s = "[34, 92, 120, 34]" and p = 1 and j = 0 and t = StringToken
        and n = 0 and body = "[97]" and nl = 10 and rest = "[34]" and e = 120]
      stringToken_declines [where s = "[34, 92, 117, 48, 49, 103, 50, 34]" and p = 1 and j = 2
        and t = StringToken and n = 0 and body = "[97]" and nl = 10
        and rest = "[48, 49, 103, 50, 34]" and e = 120]
      q
    by (simp add: peek_def text_char_def simple_escapes_def isHex_def isDigit_def)
qed

end
